theory Spec2Isabelle
  imports Complex_Main
begin

section \<open>JavaScript values shared by the components\<close>

text \<open>
  An \<^verbatim>\<open>Error\<close> object is represented by its \<^verbatim>\<open>message\<close>. Decimal rendering of a
  number inside a template string (\<^verbatim>\<open>`browser-${i}`\<close>, \<^verbatim>\<open>`test-${i + 1}`\<close>) is
  \<open>show_nat\<close>.
\<close>

datatype js_error = JsError (err_message: string)

definition digit_char :: "nat \<Rightarrow> char" where
  "digit_char d = ''0123456789'' ! d"

fun show_nat :: "nat \<Rightarrow> string" where
  "show_nat n = (if n < 10 then [digit_char n] else show_nat (n div 10) @ [digit_char (n mod 10)])"

declare show_nat.simps [simp del]

text \<open>\<^verbatim>\<open>String.prototype.includes\<close> and \<^verbatim>\<open>toLowerCase\<close> (on ASCII letters).\<close>

fun starts_with :: "string \<Rightarrow> string \<Rightarrow> bool" where
  "starts_with s [] = True"
| "starts_with [] (c # cs) = False"
| "starts_with (x # xs) (c # cs) = (x = c \<and> starts_with xs cs)"

fun str_includes :: "string \<Rightarrow> string \<Rightarrow> bool" where
  "str_includes [] sub = (sub = [])"
| "str_includes (x # xs) sub = (starts_with (x # xs) sub \<or> str_includes xs sub)"

definition lower_char :: "char \<Rightarrow> char" where
  "lower_char c = (let n = (of_char c :: nat) in if 65 \<le> n \<and> n \<le> 90 then char_of (n + 32) else c)"

definition toLowerCase :: "string \<Rightarrow> string" where
  "toLowerCase s = map lower_char s"

section \<open>Live monitor (src/utils/concurrent-monitor.js)\<close>

text \<open>
  The result object of a test session (\<^verbatim>\<open>TestSession.result\<close>), as far as the
  scheduler and the monitor read it.
\<close>

record session_result =
  sr_sessionId :: string
  sr_success :: bool
  sr_totalTime :: nat
  sr_errors :: "string list"

record error_entry =
  ee_step :: string
  ee_message :: string
  ee_timestamp :: nat

text \<open>
  The object \<^verbatim>\<open>registerSession\<close> stores per session id, with the fields later
  methods add to it. The only metadata the scheduler passes is \<^verbatim>\<open>{ index }\<close>.
\<close>

record session_info =
  si_sessionId :: string
  si_status :: string
  si_currentStep :: string
  si_startTime :: nat
  si_errors :: "error_entry list"
  si_waitingEncountered :: bool
  si_waitTime :: nat
  si_index :: "nat option"
  si_actualStartTime :: "nat option"
  si_lastStepTime :: "nat option"
  si_queuePosition :: "nat option"
  si_endTime :: "nat option"
  si_duration :: "int option"
  si_result :: "session_result option"

text \<open>
  \<^verbatim>\<open>this.stats\<close>. The counters are JavaScript numbers holding integers; they are
  \<open>int\<close> here so that \<open>running \<ge> 0\<close> is a property of the code and not of the type.
  \<^verbatim>\<open>avgWaitTime\<close> is a running mean, computed exactly.
\<close>

record stats =
  total :: int
  running :: int
  completed :: int
  failed :: int
  waiting :: int
  stepStats :: "string \<rightharpoonup> int"
  errorsByStep :: "string \<rightharpoonup> int"
  errorsByType :: "string \<rightharpoonup> int"
  waitingPageEncounters :: int
  avgWaitTime :: real

text \<open>
  The monitor: its statistics, the \<^verbatim>\<open>sessions\<close> map, and the lines \<^verbatim>\<open>logEvent\<close>
  has appended to the log file (event type and session id of each line).
\<close>

record monitor =
  stats :: stats
  sessions :: "string \<rightharpoonup> session_info"
  eventLog :: "(string \<times> string) list"

definition new_stats :: stats where
  "new_stats = \<lparr> total = 0, running = 0, completed = 0, failed = 0, waiting = 0,
     stepStats = [''step1-course'' \<mapsto> 0, ''step2-basic'' \<mapsto> 0, ''step3-detailed'' \<mapsto> 0,
                  ''step4-class'' \<mapsto> 0, ''step5-payment'' \<mapsto> 0],
     errorsByStep = Map.empty, errorsByType = Map.empty,
     waitingPageEncounters = 0, avgWaitTime = 0 \<rparr>"

definition new_monitor :: monitor where
  "new_monitor = \<lparr> stats = new_stats, sessions = Map.empty, eventLog = [] \<rparr>"

definition logEvent :: "string \<Rightarrow> string \<Rightarrow> monitor \<Rightarrow> monitor" where
  "logEvent eventType sid m = m\<lparr> eventLog := eventLog m @ [(eventType, sid)] \<rparr>"

text \<open>\<^verbatim>\<open>(obj[key] || 0) + 1\<close>\<close>

definition bump :: "(string \<rightharpoonup> int) \<Rightarrow> string \<Rightarrow> (string \<rightharpoonup> int)" where
  "bump tbl k = tbl(k \<mapsto> (case tbl k of None \<Rightarrow> 0 | Some c \<Rightarrow> c) + 1)"

definition registerSession :: "string \<Rightarrow> nat option \<Rightarrow> nat \<Rightarrow> monitor \<Rightarrow> monitor" where
  "registerSession sid idx now m =
     logEvent ''SESSION_REGISTERED'' sid
       (m\<lparr> sessions := (sessions m)(sid \<mapsto>
              \<lparr> si_sessionId = sid, si_status = ''registered'', si_currentStep = ''init'',
                si_startTime = now, si_errors = [], si_waitingEncountered = False,
                si_waitTime = 0, si_index = idx, si_actualStartTime = None,
                si_lastStepTime = None, si_queuePosition = None, si_endTime = None,
                si_duration = None, si_result = None \<rparr>),
            stats := (stats m)\<lparr> total := total (stats m) + 1 \<rparr> \<rparr>)"

definition startSession :: "string \<Rightarrow> nat \<Rightarrow> monitor \<Rightarrow> monitor" where
  "startSession sid now m =
     (case sessions m sid of
        None \<Rightarrow> m
      | Some session \<Rightarrow>
          logEvent ''SESSION_STARTED'' sid
            (m\<lparr> sessions := (sessions m)(sid \<mapsto>
                   session\<lparr> si_status := ''running'', si_actualStartTime := Some now \<rparr>),
                 stats := (stats m)\<lparr> running := running (stats m) + 1 \<rparr> \<rparr>))"

definition updateSessionStep :: "string \<Rightarrow> string \<Rightarrow> nat \<Rightarrow> monitor \<Rightarrow> monitor" where
  "updateSessionStep sid step now m =
     (case sessions m sid of
        None \<Rightarrow> m
      | Some session \<Rightarrow>
          logEvent ''STEP_UPDATE'' sid
            (m\<lparr> sessions := (sessions m)(sid \<mapsto>
                   session\<lparr> si_currentStep := step, si_lastStepTime := Some now \<rparr>),
                 stats := (stats m)\<lparr> stepStats := bump (stepStats (stats m)) step \<rparr> \<rparr>))"

definition recordWaitingPage :: "string \<Rightarrow> nat \<Rightarrow> nat \<Rightarrow> monitor \<Rightarrow> monitor" where
  "recordWaitingPage sid waitTime queuePosition m =
     (case sessions m sid of
        None \<Rightarrow> m
      | Some session \<Rightarrow>
          (let st = stats m;
               enc = waitingPageEncounters st + 1
           in logEvent ''WAITING_PAGE'' sid
                (m\<lparr> sessions := (sessions m)(sid \<mapsto>
                       session\<lparr> si_waitingEncountered := True, si_waitTime := waitTime,
                                si_queuePosition := Some queuePosition \<rparr>),
                     stats := st\<lparr> waiting := waiting st + 1,
                                  waitingPageEncounters := enc,
                                  avgWaitTime :=
                                    (avgWaitTime st * of_int (enc - 1) + of_nat waitTime) / of_int enc \<rparr> \<rparr>)))"

definition recordWaitingPagePassed :: "string \<Rightarrow> monitor \<Rightarrow> monitor" where
  "recordWaitingPagePassed sid m =
     (case sessions m sid of
        None \<Rightarrow> m
      | Some session \<Rightarrow>
          if si_waitingEncountered session
          then logEvent ''WAITING_PASSED'' sid
                 (m\<lparr> stats := (stats m)\<lparr> waiting := max 0 (waiting (stats m) - 1) \<rparr> \<rparr>)
          else m)"

text \<open>\<^verbatim>\<open>session.actualStartTime || session.startTime\<close>: a missing or zero start falls back.\<close>

definition effectiveStart :: "session_info \<Rightarrow> nat" where
  "effectiveStart session =
     (case si_actualStartTime session of
        None \<Rightarrow> si_startTime session
      | Some t \<Rightarrow> if t = 0 then si_startTime session else t)"

definition completeSession ::
  "string \<Rightarrow> bool \<Rightarrow> session_result option \<Rightarrow> nat \<Rightarrow> monitor \<Rightarrow> monitor" where
  "completeSession sid success result now m =
     (case sessions m sid of
        None \<Rightarrow> m
      | Some session \<Rightarrow>
          (let session' = session\<lparr> si_status := (if success then ''completed'' else ''failed''),
                                   si_endTime := Some now,
                                   si_duration := Some (int now - int (effectiveStart session)),
                                   si_result := result \<rparr>;
               st = (stats m)\<lparr> running := max 0 (running (stats m) - 1) \<rparr>;
               m' = m\<lparr> sessions := (sessions m)(sid \<mapsto> session') \<rparr>
           in if success
              then logEvent ''SESSION_COMPLETED'' sid
                     (m'\<lparr> stats := st\<lparr> completed := completed st + 1 \<rparr> \<rparr>)
              else logEvent ''SESSION_FAILED'' sid
                     (m'\<lparr> stats := st\<lparr> failed := failed st + 1 \<rparr> \<rparr>)))"

definition categorizeError :: "string \<Rightarrow> string" where
  "categorizeError errorMessage =
     (if errorMessage = [] then ''Unknown''
      else let msg = toLowerCase errorMessage in
        if str_includes msg ''timeout'' then ''Timeout''
        else if str_includes msg ''waiting'' \<or> str_includes msg ''queue'' then ''WaitingPage''
        else if str_includes msg ''network'' \<or> str_includes msg ''connection'' then ''Network''
        else if str_includes msg ''element'' \<or> str_includes msg ''selector'' then ''UIElement''
        else if str_includes msg ''navigation'' then ''Navigation''
        else if str_includes msg ''click'' then ''Click''
        else ''Other'')"

text \<open>
  \<^verbatim>\<open>recordError\<close> reads \<^verbatim>\<open>error.message || error\<close>. For an \<^verbatim>\<open>Error\<close> whose message is
  empty that expression is the object itself, and \<^verbatim>\<open>categorizeError\<close> then calls
  \<^verbatim>\<open>toLowerCase\<close> on an object: a \<^verbatim>\<open>TypeError\<close> is thrown after the error entry and
  the per-step count have been written. The first component of the result is the
  exception thrown, if any.
\<close>

definition typeError_toLowerCase :: js_error where
  "typeError_toLowerCase = JsError ''errorMessage.toLowerCase is not a function''"

definition recordError ::
  "string \<Rightarrow> string \<Rightarrow> js_error \<Rightarrow> nat \<Rightarrow> monitor \<Rightarrow> js_error option \<times> monitor" where
  "recordError sid step e now m =
     (case sessions m sid of
        None \<Rightarrow> (None, m)
      | Some session \<Rightarrow>
          (let entry = \<lparr> ee_step = step, ee_message = err_message e, ee_timestamp = now \<rparr>;
               m1 = m\<lparr> sessions := (sessions m)(sid \<mapsto>
                          session\<lparr> si_errors := si_errors session @ [entry] \<rparr>),
                        stats := (stats m)\<lparr> errorsByStep := bump (errorsByStep (stats m)) step \<rparr> \<rparr>
           in if err_message e = [] then (Some typeError_toLowerCase, m1)
              else (None,
                    logEvent ''ERROR'' sid
                      (m1\<lparr> stats := (stats m1)\<lparr> errorsByType :=
                              bump (errorsByType (stats m1)) (categorizeError (err_message e)) \<rparr> \<rparr>))))"

text \<open>A sequence of monitor calls, as a list of events applied in order.\<close>

datatype mon_event =
    RegisterSession string "nat option" nat
  | StartSession string nat
  | UpdateSessionStep string string nat
  | RecordWaitingPage string nat nat
  | RecordWaitingPagePassed string
  | CompleteSession string bool "session_result option" nat
  | RecordError string string js_error nat

fun apply_event :: "mon_event \<Rightarrow> monitor \<Rightarrow> monitor" where
  "apply_event (RegisterSession sid idx now) m = registerSession sid idx now m"
| "apply_event (StartSession sid now) m = startSession sid now m"
| "apply_event (UpdateSessionStep sid step now) m = updateSessionStep sid step now m"
| "apply_event (RecordWaitingPage sid wt qp) m = recordWaitingPage sid wt qp m"
| "apply_event (RecordWaitingPagePassed sid) m = recordWaitingPagePassed sid m"
| "apply_event (CompleteSession sid success result now) m = completeSession sid success result now m"
| "apply_event (RecordError sid step e now) m = snd (recordError sid step e now m)"

definition run_events :: "mon_event list \<Rightarrow> monitor \<Rightarrow> monitor" where
  "run_events evs m = fold apply_event evs m"

text \<open>The session ids passed to \<^verbatim>\<open>completeSession\<close>, in order.\<close>

fun completions :: "mon_event list \<Rightarrow> string list" where
  "completions [] = []"
| "completions (CompleteSession sid success result now # evs) = sid # completions evs"
| "completions (ev # evs) = completions evs"

section \<open>Retry with backoff (ErrorHandler, src/utils/error-handler.js)\<close>

text \<open>
  The handler's \<^verbatim>\<open>retryAttempts\<close> map, and what its calls leave behind: the delays passed
  to \<^verbatim>\<open>this.wait\<close>, the entries given to the performance monitor (when one is attached),
  and the number of times a retry function has been invoked.
\<close>

record error_handler =
  retryAttempts :: "string \<rightharpoonup> nat"
  hasPerformanceMonitor :: bool
  recordedErrors :: "(string \<times> string) list"
  waits :: "nat list"
  calls :: nat

definition new_error_handler :: "bool \<Rightarrow> error_handler" where
  "new_error_handler pm =
     \<lparr> retryAttempts = Map.empty, hasPerformanceMonitor = pm, recordedErrors = [],
       waits = [], calls = 0 \<rparr>"

text \<open>\<^verbatim>\<open>this.retryAttempts.get(operation) || 0\<close>\<close>

definition attempts_of :: "error_handler \<Rightarrow> string \<Rightarrow> nat" where
  "attempts_of h operation = (case retryAttempts h operation of None \<Rightarrow> 0 | Some c \<Rightarrow> c)"

text \<open>
  \<^verbatim>\<open>handleNetworkError(error, operation, retryFunction, maxRetries)\<close>. The retry function
  is an effectful callback: \<open>retryFunction k\<close> is what its invocation number \<open>k\<close>
  (counted by \<open>calls\<close>) does, \<open>Inl\<close> an exception and \<open>Inr\<close> a returned value. The result
  is what the call throws (\<open>Inl\<close>) or returns.
\<close>

function handleNetworkError ::
  "js_error \<Rightarrow> string \<Rightarrow> (nat \<Rightarrow> js_error + 'a) \<Rightarrow> nat \<Rightarrow> error_handler
     \<Rightarrow> (js_error + 'a) \<times> error_handler" where
  "handleNetworkError error operation retryFunction maxRetries h =
     (if attempts_of h operation \<ge> maxRetries
      then (Inl (JsError (''Network error in '' @ operation @ '' after '' @ show_nat maxRetries
                            @ '' retries: '' @ err_message error)),
            if hasPerformanceMonitor h
            then h\<lparr> recordedErrors := recordedErrors h @
                      [(operation, ''Network error after '' @ show_nat maxRetries
                                     @ '' retries: '' @ err_message error)] \<rparr>
            else h)
      else (case retryFunction (calls h) of
              Inr result \<Rightarrow>
                (Inr result,
                 h\<lparr> retryAttempts := (retryAttempts h)(operation := None),
                    waits := waits h @ [min (1000 * 2 ^ attempts_of h operation) 10000],
                    calls := calls h + 1 \<rparr>)
            | Inl retryError \<Rightarrow>
                handleNetworkError retryError operation retryFunction maxRetries
                  (h\<lparr> retryAttempts := (retryAttempts h)(operation \<mapsto> attempts_of h operation + 1),
                      waits := waits h @ [min (1000 * 2 ^ attempts_of h operation) 10000],
                      calls := calls h + 1 \<rparr>)))"
  by pat_completeness auto
termination
  by (relation "measure (\<lambda>(error, operation, retryFunction, maxRetries, h).
                  maxRetries - attempts_of h operation)")
     (auto simp: attempts_of_def)

declare handleNetworkError.simps [simp del]

text \<open>\<^verbatim>\<open>maxRetries = 3\<close> is the parameter's default.\<close>

definition handleNetworkError_default ::
  "js_error \<Rightarrow> string \<Rightarrow> (nat \<Rightarrow> js_error + 'a) \<Rightarrow> error_handler
     \<Rightarrow> (js_error + 'a) \<times> error_handler" where
  "handleNetworkError_default error operation retryFunction h =
     handleNetworkError error operation retryFunction 3 h"

definition resetRetryAttempts :: "string option \<Rightarrow> error_handler \<Rightarrow> error_handler" where
  "resetRetryAttempts operation h =
     (case operation of
        Some op \<Rightarrow> if op = [] then h\<lparr> retryAttempts := Map.empty \<rparr>
                   else h\<lparr> retryAttempts := (retryAttempts h)(op := None) \<rparr>
      | None \<Rightarrow> h\<lparr> retryAttempts := Map.empty \<rparr>)"

text \<open>
  The handler after one retry that failed: the counter of the operation incremented, the
  backoff delay waited, the retry function invoked once.
\<close>

definition after_failed_retry :: "error_handler \<Rightarrow> string \<Rightarrow> error_handler" where
  "after_failed_retry h operation =
     h\<lparr> retryAttempts := (retryAttempts h)(operation \<mapsto> attempts_of h operation + 1),
        waits := waits h @ [min (1000 * 2 ^ attempts_of h operation) 10000],
        calls := calls h + 1 \<rparr>"

text \<open>
  The bookkeeping behind the counter invariant: every tracked session that the remaining
  events still complete has its registration counted in \<open>total\<close> already.
\<close>

definition pending_inv :: "monitor \<Rightarrow> mon_event list \<Rightarrow> bool" where
  "pending_inv m evs \<longleftrightarrow>
     finite (dom (sessions m)) \<and>
     completed (stats m) + failed (stats m) + int (card (dom (sessions m) \<inter> set (completions evs)))
       \<le> total (stats m) \<and>
     0 \<le> running (stats m)"

text \<open>One session registered once and completed twice.\<close>

definition double_completion :: "mon_event list" where
  "double_completion =
     [RegisterSession ''test-1'' (Some 1) 0, StartSession ''test-1'' 0,
      CompleteSession ''test-1'' True None 5, CompleteSession ''test-1'' False None 5]"

text \<open>Two retry functions: one that always fails, one that fails once and then succeeds.\<close>

definition always_down :: "nat \<Rightarrow> js_error + string" where
  "always_down k = Inl (JsError ''socket hang up'')"

definition up_after_one :: "nat \<Rightarrow> js_error + string" where
  "up_after_one k = (if k < 1 then Inl (JsError ''socket hang up'') else Inr ''loaded'')"

section \<open>Queue-wait handling (src/pages/waiting-page.js, src/core/flow-manager.js)\<close>

text \<open>
  The page is an external collaborator. \<open>page_world\<close> fixes what it does: the answer of
  each \<^verbatim>\<open>isWaitingPage()\<close> and \<^verbatim>\<open>getWaitingInfo()\<close> call (both catch their own errors), the
  time each takes, and whether a \<^verbatim>\<open>page.waitForTimeout()\<close> call rejects. \<open>page_state\<close> is
  what a run has done to it so far: the clock read by \<^verbatim>\<open>Date.now()\<close>, the number of
  detector calls, the infos read, the sleeps completed, the number of timer calls, and the
  lines given to the logger. Screenshots (taken inside a try/catch of their own) are left out.
\<close>

record waiting_info =
  waitingCount :: nat
  estimatedTime :: nat

datatype wp_log =
    LogWaitStart
  | LogWaitCompleted
  | LogWaitingStatus nat nat
  | LogWaitError js_error
  | LogWaitTimeout nat
  | LogQueueDetected nat
  | LogQueuePosition nat
  | LogEstimatedWait nat
  | LogPassed
  | LogFailedToPass

record page_world =
  isWaitingPage_at :: "nat \<Rightarrow> bool"
  getWaitingInfo_at :: "nat \<Rightarrow> waiting_info"
  detect_cost :: "nat \<Rightarrow> nat"
  info_cost :: "nat \<Rightarrow> nat"
  timeout_fails :: "nat \<Rightarrow> js_error option"

record page_state =
  clock :: nat
  checks :: nat
  polled :: "waiting_info list"
  sleeps :: "nat list"
  timeouts :: nat
  wp_logs :: "wp_log list"

definition isWaitingPage :: "page_world \<Rightarrow> page_state \<Rightarrow> bool \<times> page_state" where
  "isWaitingPage w s =
     (isWaitingPage_at w (checks s),
      s\<lparr> clock := clock s + detect_cost w (checks s), checks := checks s + 1 \<rparr>)"

definition getWaitingInfo :: "page_world \<Rightarrow> page_state \<Rightarrow> waiting_info \<times> page_state" where
  "getWaitingInfo w s =
     (getWaitingInfo_at w (length (polled s)),
      s\<lparr> clock := clock s + info_cost w (length (polled s)),
         polled := polled s @ [getWaitingInfo_at w (length (polled s))] \<rparr>)"

definition waitForTimeout :: "page_world \<Rightarrow> nat \<Rightarrow> page_state \<Rightarrow> js_error option \<times> page_state" where
  "waitForTimeout w ms s =
     (case timeout_fails w (timeouts s) of
        Some e \<Rightarrow> (Some e, s\<lparr> timeouts := timeouts s + 1 \<rparr>)
      | None \<Rightarrow> (None, s\<lparr> clock := clock s + ms, sleeps := sleeps s @ [ms],
                          timeouts := timeouts s + 1 \<rparr>))"

definition wp_info :: "wp_log \<Rightarrow> page_state \<Rightarrow> page_state" where
  "wp_info l s = s\<lparr> wp_logs := wp_logs s @ [l] \<rparr>"

definition waitInterval :: "waiting_info \<Rightarrow> nat" where
  "waitInterval info =
     (if estimatedTime info > 0 then min (estimatedTime info * 1000) 30000 else 5000)"

function waitLoop ::
  "page_world \<Rightarrow> nat \<Rightarrow> nat \<Rightarrow> waiting_info option \<Rightarrow> page_state
     \<Rightarrow> (js_error + bool) \<times> page_state" where
  "waitLoop w maxWaitTime startTime lastWaitingInfo s =
     (if clock s - startTime < maxWaitTime
      then (case isWaitingPage w s of (isStillWaiting, s1) \<Rightarrow>
              if \<not> isStillWaiting then (Inr True, wp_info LogWaitCompleted s1)
              else (case getWaitingInfo w s1 of (info, s2) \<Rightarrow>
                (case waitForTimeout w (waitInterval info)
                        (if Some info \<noteq> lastWaitingInfo
                         then wp_info (LogWaitingStatus (waitingCount info) (estimatedTime info)) s2
                         else s2) of
                   (None, s3) \<Rightarrow> waitLoop w maxWaitTime startTime (Some info) s3
                 | (Some error, s3) \<Rightarrow>
                     (case waitForTimeout w 5000 (wp_info (LogWaitError error) s3) of
                        (None, s4) \<Rightarrow> waitLoop w maxWaitTime startTime (Some info) s4
                      | (Some error', s4) \<Rightarrow> (Inl error', s4)))))
      else (Inr False, wp_info (LogWaitTimeout maxWaitTime) s))"
  by pat_completeness auto
termination
  by (relation "measure (\<lambda>(w, maxWaitTime, startTime, lastWaitingInfo, s).
                  startTime + maxWaitTime - clock s)")
     (auto simp: isWaitingPage_def getWaitingInfo_def waitForTimeout_def wp_info_def
        waitInterval_def split: option.splits if_splits)

declare waitLoop.simps [simp del]

definition waitForCompletion ::
  "page_world \<Rightarrow> nat \<Rightarrow> page_state \<Rightarrow> (js_error + bool) \<times> page_state" where
  "waitForCompletion w maxWaitTime s =
     waitLoop w maxWaitTime (clock s) None (wp_info LogWaitStart s)"


definition handleWaitingIfPresent ::
  "page_world \<Rightarrow> nat \<Rightarrow> page_state \<Rightarrow> (js_error + bool) \<times> page_state" where
  "handleWaitingIfPresent w maxWaitTime s =
     (case isWaitingPage w s of (isWaiting, s1) \<Rightarrow>
        if \<not> isWaiting then (Inr True, s1)
        else (case getWaitingInfo w (wp_info (LogQueueDetected maxWaitTime) s1) of (info, s2) \<Rightarrow>
          (case waitForCompletion w maxWaitTime
                  (wp_info (LogEstimatedWait (estimatedTime info))
                     (wp_info (LogQueuePosition (waitingCount info)) s2)) of
             (Inl error, s3) \<Rightarrow> (Inl error, s3)
           | (Inr passed, s3) \<Rightarrow>
               if passed
               then (case waitForTimeout w 2000 (wp_info LogPassed s3) of
                       (None, s4) \<Rightarrow> (Inr True, s4)
                     | (Some error, s4) \<Rightarrow> (Inl error, s4))
               else (Inr False, wp_info LogFailedToPass s3))))"

record flow_manager =
  fm_sessionId :: string
  fm_monitor :: "monitor option"
  fm_page :: page_state

definition fm_handleWaitingPageIfPresent ::
  "page_world \<Rightarrow> flow_manager \<Rightarrow> (js_error + unit) \<times> flow_manager" where
  "fm_handleWaitingPageIfPresent w fm =
     (case handleWaitingIfPresent w 300000 (fm_page fm) of
        (Inl error, s') \<Rightarrow> (Inl error, fm\<lparr> fm_page := s' \<rparr>)
      | (Inr handled, s') \<Rightarrow>
          if \<not> handled
          then (Inl (JsError ''Failed to pass through waiting page''), fm\<lparr> fm_page := s' \<rparr>)
          else (Inr (), fm\<lparr> fm_page := s' \<rparr>))"




definition before_sleep :: "page_world \<Rightarrow> waiting_info option \<Rightarrow> page_state \<Rightarrow> page_state" where
  "before_sleep w lastWaitingInfo s =
     (case getWaitingInfo w (snd (isWaitingPage w s)) of (info, s2) \<Rightarrow>
        if Some info \<noteq> lastWaitingInfo
        then wp_info (LogWaitingStatus (waitingCount info) (estimatedTime info)) s2
        else s2)"

definition after_poll :: "page_world \<Rightarrow> waiting_info option \<Rightarrow> page_state \<Rightarrow> page_state" where
  "after_poll w lastWaitingInfo s =
     snd (waitForTimeout w (waitInterval (getWaitingInfo_at w (length (polled s))))
            (before_sleep w lastWaitingInfo s))"

definition after_caught ::
  "page_world \<Rightarrow> waiting_info option \<Rightarrow> js_error \<Rightarrow> page_state \<Rightarrow> page_state" where
  "after_caught w lastWaitingInfo error s =
     snd (waitForTimeout w 5000 (wp_info (LogWaitError error) (after_poll w lastWaitingInfo s)))"

fun status_lines :: "wp_log list \<Rightarrow> (nat \<times> nat) list" where
  "status_lines [] = []"
| "status_lines (LogWaitingStatus c e # ls) = (c, e) # status_lines ls"
| "status_lines (l # ls) = status_lines ls"

fun changes :: "waiting_info option \<Rightarrow> waiting_info list \<Rightarrow> (nat \<times> nat) list" where
  "changes lastWaitingInfo [] = []"
| "changes lastWaitingInfo (info # infos) =
     (if Some info \<noteq> lastWaitingInfo then [(waitingCount info, estimatedTime info)] else [])
       @ changes (Some info) infos"

definition quiet_page :: page_world where
  "quiet_page = \<lparr> isWaitingPage_at = (\<lambda>k. False),
       getWaitingInfo_at = (\<lambda>k. \<lparr> waitingCount = 0, estimatedTime = 0 \<rparr>),
       detect_cost = (\<lambda>k. 0), info_cost = (\<lambda>k. 0), timeout_fails = (\<lambda>k. None) \<rparr>"


definition busy_page :: page_world where
  "busy_page = \<lparr> isWaitingPage_at = (\<lambda>k. k < 3),
       getWaitingInfo_at = (\<lambda>k. \<lparr> waitingCount = 3, estimatedTime = 10 \<rparr>),
       detect_cost = (\<lambda>k. 0), info_cost = (\<lambda>k. 0), timeout_fails = (\<lambda>k. None) \<rparr>"

text \<open>A waiting page whose timer rejects every call, as that of a closed page does.\<close>

definition closing_page :: page_world where
  "closing_page = \<lparr> isWaitingPage_at = (\<lambda>k. True),
       getWaitingInfo_at = (\<lambda>k. \<lparr> waitingCount = 3, estimatedTime = 60 \<rparr>),
       detect_cost = (\<lambda>k. 100), info_cost = (\<lambda>k. 50),
       timeout_fails = (\<lambda>k. Some (JsError ''Target closed'')) \<rparr>"

definition new_page :: page_state where
  "new_page = \<lparr> clock = 0, checks = 0, polled = [], sleeps = [], timeouts = 0, wp_logs = [] \<rparr>"

definition waiting_fm :: flow_manager where
  "waiting_fm = \<lparr> fm_sessionId = ''test-1'',
                   fm_monitor = Some (registerSession ''test-1'' (Some 1) 0 new_monitor),
                   fm_page = new_page \<rparr>"

section \<open>Browser session manager (src/browser/session-manager.js)\<close>

text \<open>
  The manager's maps and settings, as its constructor lists them. Browsers, contexts and
  pages are engine handles; a handle is the number of the engine call that created it, and
  a pending promise is named by the same number.
\<close>

record manager =
  browsers :: "string \<rightharpoonup> nat"
  sharedContexts :: "string \<rightharpoonup> nat"
  contexts :: "string \<rightharpoonup> nat"
  pages :: "string \<rightharpoonup> nat"
  sessionToBrowser :: "string \<rightharpoonup> string"
  useSharedContext :: bool
  tabsPerBrowser :: nat
  browserStarting :: "string \<rightharpoonup> nat"
  contextCreating :: "string \<rightharpoonup> nat"
  sessionCounter :: nat

definition new_manager :: manager where
  "new_manager =
     \<lparr> browsers = Map.empty, sharedContexts = Map.empty, contexts = Map.empty,
       pages = Map.empty, sessionToBrowser = Map.empty, useSharedContext = False,
       tabsPerBrowser = 10, browserStarting = Map.empty, contextCreating = Map.empty,
       sessionCounter = 0 \<rparr>"

definition setTabsPerBrowser :: "nat \<Rightarrow> manager \<Rightarrow> manager" where
  "setTabsPerBrowser count mg = mg\<lparr> tabsPerBrowser := count \<rparr>"

definition enableSharedContextMode :: "manager \<Rightarrow> manager" where
  "enableSharedContextMode mg = mg\<lparr> useSharedContext := True \<rparr>"

text \<open>
  \<^verbatim>\<open>`browser-${Math.floor(n / tabsPerBrowser)}`\<close>. JavaScript division by zero gives
  \<^verbatim>\<open>NaN\<close> for \<open>0 / 0\<close> and \<^verbatim>\<open>Infinity\<close> otherwise, and \<^verbatim>\<open>Math.floor\<close> keeps both.
\<close>

definition browser_name :: "nat \<Rightarrow> nat \<Rightarrow> string" where
  "browser_name n perBrowser =
     ''browser-'' @ (if perBrowser = 0 then (if n = 0 then ''NaN'' else ''Infinity'')
                     else show_nat (n div perBrowser))"

text \<open>
  \<^verbatim>\<open>_distributeSessions\<close>: the \<^verbatim>\<open>Map\<close> it builds, as an association list in insertion
  order. \<open>distribute_push\<close> is the body of the \<^verbatim>\<open>forEach\<close> callback.
\<close>

definition distribute_push ::
  "string \<Rightarrow> string \<Rightarrow> (string \<times> string list) list \<Rightarrow> (string \<times> string list) list" where
  "distribute_push browserId sessionId distribution =
     (if browserId \<in> set (map fst distribution)
      then map (\<lambda>(k, v). if k = browserId then (k, v @ [sessionId]) else (k, v)) distribution
      else distribution @ [(browserId, [sessionId])])"

fun distribute_from ::
  "nat \<Rightarrow> nat \<Rightarrow> string list \<Rightarrow> (string \<times> string list) list \<Rightarrow> (string \<times> string list) list" where
  "distribute_from perBrowser index [] distribution = distribution"
| "distribute_from perBrowser index (sessionId # rest) distribution =
     distribute_from perBrowser (Suc index) rest
       (distribute_push (browser_name index perBrowser) sessionId distribution)"

definition distributeSessions :: "manager \<Rightarrow> string list \<Rightarrow> (string \<times> string list) list" where
  "distributeSessions mg sessionIds = distribute_from (tabsPerBrowser mg) 0 sessionIds []"

text \<open>
  The start of \<^verbatim>\<open>createSession(sessionId, browserId)\<close>, up to its first \<^verbatim>\<open>await\<close>: a
  missing (or empty) \<^verbatim>\<open>browserId\<close> is assigned from the session counter.
\<close>

definition createSession_assign :: "string \<Rightarrow> string option \<Rightarrow> manager \<Rightarrow> string \<times> manager" where
  "createSession_assign sessionId browserId mg =
     (case browserId of
        Some b \<Rightarrow>
          if b = [] then (browser_name (sessionCounter mg) (tabsPerBrowser mg),
                          mg\<lparr> sessionCounter := sessionCounter mg + 1 \<rparr>)
          else (b, mg)
      | None \<Rightarrow> (browser_name (sessionCounter mg) (tabsPerBrowser mg),
                 mg\<lparr> sessionCounter := sessionCounter mg + 1 \<rparr>))"

text \<open>
  A run of sessions, each calling \<^verbatim>\<open>createSession(sessionId)\<close> in turn: the browser ids
  they are assigned.
\<close>

fun createSessions :: "string list \<Rightarrow> manager \<Rightarrow> string list \<times> manager" where
  "createSessions [] mg = ([], mg)"
| "createSessions (sessionId # rest) mg =
     (case createSession_assign sessionId None mg of (browserId, mg1) \<Rightarrow>
        (case createSessions rest mg1 of (browserIds, mg2) \<Rightarrow> (browserId # browserIds, mg2)))"

definition six_sessions :: "string list" where
  "six_sessions = [''test-1'', ''test-2'', ''test-3'', ''test-4'', ''test-5'', ''test-6'']"

subsection \<open>Lazy creation of browsers and shared contexts\<close>

text \<open>
  \<^verbatim>\<open>startBrowser\<close> and \<^verbatim>\<open>getOrCreateSharedContext\<close> are \<^verbatim>\<open>async\<close> methods on one event loop:
  the code between two \<^verbatim>\<open>await\<close>s runs without interruption, and other callers run while a
  call is suspended. The engine side of a configuration lists every \<^verbatim>\<open>chromium.launch()\<close>
  and every \<^verbatim>\<open>browser.newContext()\<close> call made for a shared context, in call order, with
  the browser id it was made for and the state of the promise it returned. Call number
  \<open>k\<close> names that promise, and the handle it resolves to.
\<close>

datatype settle = Pending | Resolved | Rejected js_error

datatype browser_promise = Ready nat | Launching nat

text \<open>
  A suspended call of \<^verbatim>\<open>getOrCreateSharedContext(browserId)\<close>: at
  \<^verbatim>\<open>await this.startBrowser(browserId)\<close>, or waiting for a context promise (the one found in
  \<^verbatim>\<open>contextCreating\<close>, or the one it created and returned).
\<close>

datatype call_state =
    AwaitStart string browser_promise
  | AwaitCreating string nat
  | Returned nat
  | Threw js_error

record config =
  mgr :: manager
  launches :: "(string \<times> settle) list"
  contextCalls :: "(string \<times> settle) list"
  tasks :: "nat \<rightharpoonup> call_state"

definition new_config :: config where
  "new_config = \<lparr> mgr = new_manager, launches = [], contextCalls = [], tasks = Map.empty \<rparr>"

text \<open>\<^verbatim>\<open>startBrowser(browserId)\<close> up to its \<^verbatim>\<open>return\<close>: the promise the caller gets.\<close>

definition startBrowser :: "string \<Rightarrow> config \<Rightarrow> browser_promise \<times> config" where
  "startBrowser browserId c =
     (case browsers (mgr c) browserId of
        Some browser \<Rightarrow> (Ready browser, c)
      | None \<Rightarrow>
          (case browserStarting (mgr c) browserId of
             Some startingPromise \<Rightarrow> (Launching startingPromise, c)
           | None \<Rightarrow>
               (Launching (length (launches c)),
                c\<lparr> launches := launches c @ [(browserId, Pending)],
                   mgr := (mgr c)\<lparr> browserStarting :=
                            (browserStarting (mgr c))(browserId \<mapsto> length (launches c)) \<rparr> \<rparr>)))"

text \<open>
  The \<^verbatim>\<open>.then\<close> / \<^verbatim>\<open>.catch\<close> callbacks of \<^verbatim>\<open>startBrowser\<close>, run when launch \<open>p\<close> settles
  (\<open>None\<close>: it resolved; \<open>Some e\<close>: it rejected with \<open>e\<close>).
\<close>

definition launchSettles :: "nat \<Rightarrow> js_error option \<Rightarrow> config \<Rightarrow> config option" where
  "launchSettles p outcome c =
     (if p < length (launches c) \<and> snd (launches c ! p) = Pending
      then (let browserId = fst (launches c ! p) in
            case outcome of
              None \<Rightarrow>
                Some (c\<lparr> launches := (launches c)[p := (browserId, Resolved)],
                         mgr := (mgr c)\<lparr> browsers := (browsers (mgr c))(browserId \<mapsto> p),
                                         browserStarting := (browserStarting (mgr c))(browserId := None) \<rparr> \<rparr>)
            | Some error \<Rightarrow>
                Some (c\<lparr> launches := (launches c)[p := (browserId, Rejected error)],
                         mgr := (mgr c)\<lparr> browserStarting :=
                                           (browserStarting (mgr c))(browserId := None) \<rparr> \<rparr>))
      else None)"

text \<open>
  A new call of \<^verbatim>\<open>getOrCreateSharedContext(browserId)\<close> by caller \<open>t\<close>, up to its first
  \<^verbatim>\<open>await\<close> or \<^verbatim>\<open>return\<close>.
\<close>

definition callGetOrCreateSharedContext :: "nat \<Rightarrow> string \<Rightarrow> config \<Rightarrow> config option" where
  "callGetOrCreateSharedContext t browserId c =
     (if tasks c t \<noteq> None then None
      else case sharedContexts (mgr c) browserId of
             Some context \<Rightarrow> Some (c\<lparr> tasks := (tasks c)(t \<mapsto> Returned context) \<rparr>)
           | None \<Rightarrow>
               (case contextCreating (mgr c) browserId of
                  Some creatingPromise \<Rightarrow>
                    Some (c\<lparr> tasks := (tasks c)(t \<mapsto> AwaitCreating browserId creatingPromise) \<rparr>)
                | None \<Rightarrow>
                    (case startBrowser browserId c of (promise, c1) \<Rightarrow>
                       Some (c1\<lparr> tasks := (tasks c1)(t \<mapsto> AwaitStart browserId promise) \<rparr>))))"

text \<open>
  The rest of \<^verbatim>\<open>getOrCreateSharedContext\<close> once the browser is there:
  \<^verbatim>\<open>browser.newContext(...)\<close> is called and its promise stored in \<^verbatim>\<open>contextCreating\<close>.
\<close>

definition createSharedContext :: "nat \<Rightarrow> string \<Rightarrow> config \<Rightarrow> config" where
  "createSharedContext t browserId c =
     c\<lparr> contextCalls := contextCalls c @ [(browserId, Pending)],
        mgr := (mgr c)\<lparr> contextCreating :=
                 (contextCreating (mgr c))(browserId \<mapsto> length (contextCalls c)) \<rparr>,
        tasks := (tasks c)(t \<mapsto> AwaitCreating browserId (length (contextCalls c))) \<rparr>"

text \<open>Caller \<open>t\<close> continues after its \<^verbatim>\<open>await\<close>; enabled once the awaited promise has settled.\<close>

definition resume :: "nat \<Rightarrow> config \<Rightarrow> config option" where
  "resume t c =
     (case tasks c t of
        Some (AwaitStart browserId (Ready browser)) \<Rightarrow> Some (createSharedContext t browserId c)
      | Some (AwaitStart browserId (Launching p)) \<Rightarrow>
          (if p < length (launches c)
           then (case snd (launches c ! p) of
                   Pending \<Rightarrow> None
                 | Resolved \<Rightarrow> Some (createSharedContext t browserId c)
                 | Rejected error \<Rightarrow> Some (c\<lparr> tasks := (tasks c)(t \<mapsto> Threw error) \<rparr>))
           else None)
      | Some (AwaitCreating browserId p) \<Rightarrow>
          (if p < length (contextCalls c)
           then (case snd (contextCalls c ! p) of
                   Pending \<Rightarrow> None
                 | Resolved \<Rightarrow> Some (c\<lparr> tasks := (tasks c)(t \<mapsto> Returned p) \<rparr>)
                 | Rejected error \<Rightarrow> Some (c\<lparr> tasks := (tasks c)(t \<mapsto> Threw error) \<rparr>))
           else None)
      | _ \<Rightarrow> None)"

text \<open>
  The \<^verbatim>\<open>.then\<close> / \<^verbatim>\<open>.catch\<close> callbacks of \<^verbatim>\<open>getOrCreateSharedContext\<close>, run when context
  creation \<open>p\<close> settles.
\<close>

definition contextSettles :: "nat \<Rightarrow> js_error option \<Rightarrow> config \<Rightarrow> config option" where
  "contextSettles p outcome c =
     (if p < length (contextCalls c) \<and> snd (contextCalls c ! p) = Pending
      then (let browserId = fst (contextCalls c ! p) in
            case outcome of
              None \<Rightarrow>
                Some (c\<lparr> contextCalls := (contextCalls c)[p := (browserId, Resolved)],
                         mgr := (mgr c)\<lparr> sharedContexts := (sharedContexts (mgr c))(browserId \<mapsto> p),
                                         contextCreating := (contextCreating (mgr c))(browserId := None) \<rparr> \<rparr>)
            | Some error \<Rightarrow>
                Some (c\<lparr> contextCalls := (contextCalls c)[p := (browserId, Rejected error)],
                         mgr := (mgr c)\<lparr> contextCreating :=
                                           (contextCreating (mgr c))(browserId := None) \<rparr> \<rparr>))
      else None)"

text \<open>
  What can happen next on the event loop; \<open>loop_step\<close> is \<open>None\<close> for an event that cannot
  happen in the configuration.
\<close>

datatype event =
    CallStartBrowser string
  | CallGetOrCreateSharedContext nat string
  | LaunchSettles nat "js_error option"
  | ContextSettles nat "js_error option"
  | Resume nat

fun loop_step :: "event \<Rightarrow> config \<Rightarrow> config option" where
  "loop_step (CallStartBrowser browserId) c = Some (snd (startBrowser browserId c))"
| "loop_step (CallGetOrCreateSharedContext t browserId) c = callGetOrCreateSharedContext t browserId c"
| "loop_step (LaunchSettles p outcome) c = launchSettles p outcome c"
| "loop_step (ContextSettles p outcome) c = contextSettles p outcome c"
| "loop_step (Resume t) c = resume t c"

fun loop_run :: "event list \<Rightarrow> config \<Rightarrow> config option" where
  "loop_run [] c = Some c"
| "loop_run (ev # evs) c = (case loop_step ev c of None \<Rightarrow> None | Some c' \<Rightarrow> loop_run evs c')"

text \<open>
  Single-flight, for a list of creation calls: no two calls for the same key are pending
  at the same time.
\<close>

definition single_flight :: "(string \<times> settle) list \<Rightarrow> bool" where
  "single_flight cs \<longleftrightarrow>
     (\<forall>p < length cs. \<forall>q < length cs.
        fst (cs ! p) = fst (cs ! q) \<and> snd (cs ! p) = Pending \<and> snd (cs ! q) = Pending \<longrightarrow> p = q)"

text \<open>The guard of \<^verbatim>\<open>startBrowser\<close>: a pending launch is the one \<^verbatim>\<open>browserStarting\<close> holds.\<close>

definition launch_guarded :: "config \<Rightarrow> bool" where
  "launch_guarded c \<longleftrightarrow>
     (\<forall>p < length (launches c).
        snd (launches c ! p) = Pending \<longrightarrow>
        browserStarting (mgr c) (fst (launches c ! p)) = Some p)"

text \<open>
  Two sessions ask for the shared context of \<open>browser-0\<close> before the browser is up; the
  launch succeeds; both continue.
\<close>

definition two_requesters :: "event list" where
  "two_requesters =
     [CallGetOrCreateSharedContext 1 ''browser-0'', CallGetOrCreateSharedContext 2 ''browser-0'',
      LaunchSettles 0 None, Resume 1, Resume 2]"

section \<open>Batch scheduler (src/core/test-executor.js)\<close>

text \<open>
  \<^verbatim>\<open>TestSession.run\<close> is an external collaborator. \<open>exec_world\<close> fixes, for the session with
  index \<open>i\<close> (id \<^verbatim>\<open>test-${i + 1}\<close>): whether its \<^verbatim>\<open>run\<close> returns a result or throws, when it
  is started and when it settles, and, for each wave number, whether \<^verbatim>\<open>stop()\<close> is called
  while that wave is in flight or cooling down.
\<close>

datatype run_outcome = Returns session_result | Throws js_error

record exec_world =
  session_run :: "nat \<Rightarrow> run_outcome"
  startAt :: "nat \<Rightarrow> nat"
  finishAt :: "nat \<Rightarrow> nat"
  stopDuring :: "nat \<Rightarrow> bool"

text \<open>
  An element of \<^verbatim>\<open>this.results\<close>: a session's result object, or the object
  \<^verbatim>\<open>{ success: false, error, testIndex }\<close> pushed for a rejected promise.
\<close>

datatype result_entry = SessionResult session_result | FailureEntry string nat

fun entry_success :: "result_entry \<Rightarrow> bool" where
  "entry_success (SessionResult r) = sr_success r"
| "entry_success (FailureEntry error testIndex) = False"

fun entry_totalTime :: "result_entry \<Rightarrow> nat option" where
  "entry_totalTime (SessionResult r) = Some (sr_totalTime r)"
| "entry_totalTime (FailureEntry error testIndex) = None"

text \<open>
  The executor: its fields \<^verbatim>\<open>isRunning\<close>, \<^verbatim>\<open>results\<close>, \<^verbatim>\<open>monitor\<close>, \<^verbatim>\<open>sessions\<close> (the ids),
  the loop variable \<^verbatim>\<open>completed\<close>, and the settled promises of the current batch by session
  index. \<open>waves\<close> records \<^verbatim>\<open>currentBatch.length\<close> of every iteration so far and \<open>trace\<close> the
  order in which sessions were started and settled.
\<close>

datatype exec_event = Started nat | Settled nat

record executor =
  isRunning :: bool
  results :: "result_entry list"
  ex_monitor :: monitor
  ex_sessions :: "string set"
  ex_completed :: nat
  promises :: "nat \<rightharpoonup> js_error + session_result"
  waves :: "nat list"
  trace :: "exec_event list"

definition new_executor :: executor where
  "new_executor =
     \<lparr> isRunning = False, results = [], ex_monitor = new_monitor, ex_sessions = {},
       ex_completed = 0, promises = Map.empty, waves = [], trace = [] \<rparr>"

definition session_id :: "nat \<Rightarrow> string" where
  "session_id i = ''test-'' @ show_nat (i + 1)"

text \<open>
  The body of the batch-building \<^verbatim>\<open>for\<close> loop for index \<open>i\<close>: the session is registered
  with the monitor, entered in \<^verbatim>\<open>this.sessions\<close>, and \<^verbatim>\<open>_runSessionWithMonitoring\<close> runs up
  to its \<^verbatim>\<open>await session.run(...)\<close>, which records the start.
\<close>

definition beginSession :: "exec_world \<Rightarrow> nat \<Rightarrow> executor \<Rightarrow> executor" where
  "beginSession w i ex =
     ex\<lparr> ex_monitor := startSession (session_id i) (startAt w i)
                         (registerSession (session_id i) (Some (i + 1)) (startAt w i) (ex_monitor ex)),
         ex_sessions := insert (session_id i) (ex_sessions ex),
         trace := trace ex @ [Started i] \<rparr>"

text \<open>
  The rest of \<^verbatim>\<open>_runSessionWithMonitoring\<close> once \<^verbatim>\<open>session.run\<close> has settled: the try
  block's completion record, or the catch block, which rethrows the error (or the
  \<^verbatim>\<open>TypeError\<close> that \<^verbatim>\<open>recordError\<close> raised in its place); then the \<^verbatim>\<open>finally\<close> block. The
  promise of the session settles with the value or the error.
\<close>

definition finishSession :: "exec_world \<Rightarrow> nat \<Rightarrow> executor \<Rightarrow> executor" where
  "finishSession w i ex =
     (case session_run w i of
        Returns result \<Rightarrow>
          ex\<lparr> ex_monitor := completeSession (session_id i) (sr_success result) (Some result)
                              (finishAt w i) (ex_monitor ex),
              ex_sessions := ex_sessions ex - {session_id i},
              promises := (promises ex)(i \<mapsto> Inr result),
              trace := trace ex @ [Settled i] \<rparr>
      | Throws error \<Rightarrow>
          (case recordError (session_id i) ''session-execution'' error (finishAt w i)
                  (completeSession (session_id i) False None (finishAt w i) (ex_monitor ex)) of
             (thrown, m) \<Rightarrow>
               ex\<lparr> ex_monitor := m,
                   ex_sessions := ex_sessions ex - {session_id i},
                   promises := (promises ex)(i \<mapsto>
                                 Inl (case thrown of Some typeError \<Rightarrow> typeError | None \<Rightarrow> error)),
                   trace := trace ex @ [Settled i] \<rparr>))"

text \<open>
  The \<^verbatim>\<open>batchResults.forEach\<close> callback: \<^verbatim>\<open>result.reason?.message || 'Unknown error'\<close> for a
  rejected promise.
\<close>

definition collect :: "nat \<Rightarrow> js_error + session_result \<Rightarrow> result_entry" where
  "collect testIndex settled =
     (case settled of
        Inr value \<Rightarrow> SessionResult value
      | Inl reason \<Rightarrow>
          FailureEntry (if err_message reason = [] then ''Unknown error'' else err_message reason)
            testIndex)"

definition stop :: "executor \<Rightarrow> executor" where
  "stop ex = ex\<lparr> isRunning := False \<rparr>"

text \<open>
  One iteration of the \<^verbatim>\<open>while\<close> loop. The sessions of the batch are started in index
  order; \<^verbatim>\<open>Promise.allSettled\<close> resolves when each has settled, which they do in order of
  their finish times; the results are collected in index order. A \<^verbatim>\<open>stop()\<close> during the
  wave or its cooldown has cleared \<^verbatim>\<open>isRunning\<close> by the time the loop tests it again.
  Every promise of the batch has settled when the results are read.
\<close>

definition run_wave :: "exec_world \<Rightarrow> nat \<Rightarrow> nat \<Rightarrow> executor \<Rightarrow> executor" where
  "run_wave w count batchSize ex =
     (let batchEnd = min (ex_completed ex + batchSize) count;
          currentBatch = [ex_completed ex ..< batchEnd];
          ex1 = fold (beginSession w) currentBatch ex;
          ex2 = fold (finishSession w) (sort_key (finishAt w) currentBatch) ex1;
          ex3 = ex2\<lparr> results := results ex2 @ map (\<lambda>i. collect i (the (promises ex2 i))) currentBatch,
                     ex_completed := batchEnd,
                     waves := waves ex2 @ [length currentBatch] \<rparr>
      in if stopDuring w (length (waves ex)) then stop ex3 else ex3)"

text \<open>
  The \<^verbatim>\<open>while (completed < count && this.isRunning)\<close> loop, cut off after \<open>fuel\<close>
  iterations.
\<close>

primrec waves_loop :: "exec_world \<Rightarrow> nat \<Rightarrow> nat \<Rightarrow> nat \<Rightarrow> executor \<Rightarrow> executor" where
  "waves_loop w count batchSize 0 ex = ex"
| "waves_loop w count batchSize (Suc fuel) ex =
     (if ex_completed ex < count \<and> isRunning ex
      then waves_loop w count batchSize fuel (run_wave w count batchSize ex)
      else ex)"

text \<open>\<^verbatim>\<open>Math.round\<close>, and \<^verbatim>\<open>_createSummary\<close> (rates and averages computed exactly).\<close>

definition js_round :: "real \<Rightarrow> int" where
  "js_round x = \<lfloor>x + 1 / 2\<rfloor>"

record summary =
  sum_total :: nat
  sum_successful :: nat
  sum_failed :: nat
  sum_successRate :: real
  sum_avgTime :: int
  sum_minTime :: nat
  sum_maxTime :: nat

definition createSummary :: "result_entry list \<Rightarrow> summary" where
  "createSummary rs =
     (let successful = length (filter entry_success rs);
          times = filter (\<lambda>t. t > 0) (List.map_filter entry_totalTime rs)
      in \<lparr> sum_total = length rs,
           sum_successful = successful,
           sum_failed = length rs - successful,
           sum_successRate =
             (if length rs > 0
              then of_int (js_round (of_nat successful / of_nat (length rs) * 100 * 100)) / 100
              else 0),
           sum_avgTime =
             (if times \<noteq> [] then js_round (of_nat (sum_list times) / of_nat (length times)) else 0),
           sum_minTime = (if times \<noteq> [] then Min (set times) else 0),
           sum_maxTime = (if times \<noteq> [] then Max (set times) else 0) \<rparr>)"

record multi_result =
  mr_success :: bool
  mr_results :: "result_entry list"
  mr_summary :: summary

text \<open>
  \<^verbatim>\<open>executeMulti({ count, concurrency })\<close> on executor \<open>ex\<close>: \<^verbatim>\<open>isRunning\<close> is set and the
  results are cleared, a new monitor is made, the loop runs, and the result object is built;
  the \<^verbatim>\<open>finally\<close> block clears \<^verbatim>\<open>isRunning\<close> and the sessions. The result is \<open>None\<close> when the
  loop has not ended after \<open>fuel\<close> iterations. (The tab-mode setup acts on the session
  manager only; report writing catches its own errors; the monitor's writes to its log and
  statistics files are taken to succeed.)
\<close>

definition executeMulti_start :: "executor \<Rightarrow> executor" where
  "executeMulti_start ex =
     ex\<lparr> isRunning := True, results := [], ex_monitor := new_monitor, ex_completed := 0,
         promises := Map.empty, waves := [], trace := [] \<rparr>"

definition executeMulti ::
  "exec_world \<Rightarrow> nat \<Rightarrow> nat \<Rightarrow> nat \<Rightarrow> executor \<Rightarrow> (multi_result \<times> executor) option" where
  "executeMulti w count concurrency fuel ex =
     (let ex' = waves_loop w count (min concurrency count) fuel (executeMulti_start ex)
      in if ex_completed ex' < count \<and> isRunning ex' then None
         else Some (\<lparr> mr_success = list_all entry_success (results ex'),
                      mr_results = results ex',
                      mr_summary = createSummary (results ex') \<rparr>,
                    ex'\<lparr> isRunning := False, ex_sessions := {} \<rparr>))"

text \<open>
  The sessions in flight after a trace, and the join-all barrier: once a session of the
  group in flight has settled, no session is started until all in flight have settled.
\<close>

fun in_flight :: "nat set \<Rightarrow> exec_event list \<Rightarrow> nat set" where
  "in_flight S [] = S"
| "in_flight S (Started i # tr) = in_flight (insert i S) tr"
| "in_flight S (Settled i # tr) = in_flight (S - {i}) tr"

fun barrier :: "nat set \<Rightarrow> bool \<Rightarrow> exec_event list \<Rightarrow> bool" where
  "barrier S settling [] = True"
| "barrier S settling (Started i # tr) = ((settling \<longrightarrow> S = {}) \<and> barrier (insert i S) False tr)"
| "barrier S settling (Settled i # tr) = barrier (S - {i}) True tr"

fun started :: "exec_event list \<Rightarrow> nat list" where
  "started [] = []"
| "started (Started i # tr) = i # started tr"
| "started (Settled i # tr) = started tr"

text \<open>The spec's wave sizes: each wave takes \<open>min(concurrency, remaining)\<close> sessions.\<close>

function wave_sizes :: "nat \<Rightarrow> nat \<Rightarrow> nat list" where
  "wave_sizes concurrency remaining =
     (if remaining = 0 \<or> concurrency = 0 then []
      else min concurrency remaining # wave_sizes concurrency (remaining - min concurrency remaining))"
  by pat_completeness auto
termination
  by (relation "measure (\<lambda>(concurrency, remaining). remaining)") auto

declare wave_sizes.simps [simp del]

text \<open>What the scheduler records for session \<open>i\<close>, from what its \<^verbatim>\<open>run\<close> does.\<close>

definition expected_entry :: "exec_world \<Rightarrow> nat \<Rightarrow> result_entry" where
  "expected_entry w i =
     (case session_run w i of
        Returns result \<Rightarrow> SessionResult result
      | Throws error \<Rightarrow>
          FailureEntry (if err_message error = [] then err_message typeError_toLowerCase
                        else err_message error) i)"

text \<open>
  The trace of a run made of the given waves, the first starting at session index \<open>first\<close>:
  wave by wave, the starts of all its sessions, then the settlement of each of them.
\<close>

fun wave_trace :: "exec_world \<Rightarrow> nat \<Rightarrow> nat list \<Rightarrow> exec_event list" where
  "wave_trace w first [] = []"
| "wave_trace w first (n # ns) =
     map Started [first ..< first + n]
     @ map Settled (sort_key (finishAt w) [first ..< first + n])
     @ wave_trace w (first + n) ns"

text \<open>
  A session is tracked once the monitor holds an entry for its id. The value a session's
  promise settles with, from what its \<^verbatim>\<open>run\<close> does.
\<close>

definition tracked :: "monitor \<Rightarrow> string \<Rightarrow> bool" where
  "tracked m sid \<longleftrightarrow> sessions m sid \<noteq> None"

definition settled_value :: "exec_world \<Rightarrow> nat \<Rightarrow> js_error + session_result" where
  "settled_value w i =
     (case session_run w i of
        Returns result \<Rightarrow> Inr result
      | Throws error \<Rightarrow> Inl (if err_message error = [] then typeError_toLowerCase else error))"

text \<open>The state of the loop between two waves.\<close>

definition wave_inv :: "exec_world \<Rightarrow> nat \<Rightarrow> nat \<Rightarrow> executor \<Rightarrow> bool" where
  "wave_inv w count batchSize ex \<longleftrightarrow>
     ex_completed ex = min (length (waves ex) * batchSize) count
   \<and> ex_completed ex = sum_list (waves ex)
   \<and> (\<forall>k < length (waves ex).
         waves ex ! k = min batchSize (count - sum_list (take k (waves ex)))
       \<and> k * batchSize < count \<and> sum_list (take k (waves ex)) < count)
   \<and> (\<forall>k. Suc k < length (waves ex) \<longrightarrow> \<not> stopDuring w k)
   \<and> (\<forall>i < ex_completed ex. promises ex i = Some (settled_value w i))
   \<and> results ex = map (expected_entry w) [0..<ex_completed ex]
   \<and> started (trace ex) = [0..<ex_completed ex]
   \<and> trace ex = wave_trace w 0 (waves ex)
   \<and> in_flight {} (trace ex) = {}
   \<and> barrier {} True (trace ex)
   \<and> (isRunning ex \<longleftrightarrow> (\<forall>k < length (waves ex). \<not> stopDuring w k))"

text \<open>
  Three worlds for ten sessions: every session passes (later sessions settle first); as the
  first, but the second session's \<^verbatim>\<open>run\<close> throws; as the first, but \<^verbatim>\<open>stop()\<close> is called
  while the second wave is in flight.
\<close>

definition passing_session :: "nat \<Rightarrow> session_result" where
  "passing_session i =
     \<lparr> sr_sessionId = session_id i, sr_success = True, sr_totalTime = 1000 * (i + 1),
       sr_errors = [] \<rparr>"

definition all_pass :: exec_world where
  "all_pass =
     \<lparr> session_run = (\<lambda>i. Returns (passing_session i)), startAt = (\<lambda>i. 0),
       finishAt = (\<lambda>i. 5000 - i), stopDuring = (\<lambda>k. False) \<rparr>"

definition one_throws :: exec_world where
  "one_throws =
     all_pass\<lparr> session_run := (\<lambda>i. if i = 1
                                    then Throws (JsError ''Browser setup failed: launch timeout'')
                                    else Returns (passing_session i)) \<rparr>"

definition stopped_in_second_wave :: exec_world where
  "stopped_in_second_wave = all_pass\<lparr> stopDuring := (\<lambda>k. k = 1) \<rparr>"

section \<open>Properties of the live monitor\<close>

lemma sessions_logEvent [simp]: "sessions (logEvent t sid m) = sessions m"
  by (simp add: logEvent_def)

lemma stats_logEvent [simp]: "stats (logEvent t sid m) = stats m"
  by (simp add: logEvent_def)

lemmas monitor_defs =
  registerSession_def startSession_def updateSessionStep_def recordWaitingPage_def
  recordWaitingPagePassed_def completeSession_def recordError_def

lemma dom_sessions_apply_event:
  "dom (sessions (apply_event ev m)) =
     (case ev of RegisterSession sid idx now \<Rightarrow> insert sid (dom (sessions m)) | _ \<Rightarrow> dom (sessions m))"
  by (cases ev) (auto simp: monitor_defs Let_def split: option.splits if_splits)

lemma total_apply_event:
  "total (stats (apply_event ev m)) =
     (case ev of RegisterSession sid idx now \<Rightarrow> total (stats m) + 1 | _ \<Rightarrow> total (stats m))"
  by (cases ev) (auto simp: monitor_defs Let_def split: option.splits if_splits)

lemma settled_apply_event:
  "completed (stats (apply_event ev m)) + failed (stats (apply_event ev m)) =
     (case ev of
        CompleteSession sid success result now \<Rightarrow>
          completed (stats m) + failed (stats m) + (if sid \<in> dom (sessions m) then 1 else 0)
      | _ \<Rightarrow> completed (stats m) + failed (stats m))"
  by (cases ev) (auto simp: monitor_defs Let_def split: option.splits if_splits)

lemma running_apply_event:
  "0 \<le> running (stats m) \<Longrightarrow> 0 \<le> running (stats (apply_event ev m))"
  by (cases ev) (auto simp: monitor_defs Let_def split: option.splits if_splits)

lemma pending_inv_step:
  assumes "distinct (completions (ev # evs))" and "pending_inv m (ev # evs)"
  shows "pending_inv (apply_event ev m) evs"
proof -
  let ?D = "dom (sessions m)"
  from assms(2) have fin: "finite ?D" and run: "0 \<le> running (stats m)"
    and le: "completed (stats m) + failed (stats m)
               + int (card (?D \<inter> set (completions (ev # evs)))) \<le> total (stats m)"
    by (simp_all add: pending_inv_def)
  note effects = pending_inv_def dom_sessions_apply_event total_apply_event settled_apply_event
  show ?thesis
  proof (cases ev)
    case (RegisterSession sid idx now)
    have "card (insert sid ?D \<inter> set (completions evs))
            \<le> card (insert sid (?D \<inter> set (completions evs)))"
      using fin by (intro card_mono) auto
    also have "\<dots> \<le> Suc (card (?D \<inter> set (completions evs)))"
      using fin by (simp add: card_insert_if)
    finally show ?thesis
      using le fin run running_apply_event[OF run, of ev] RegisterSession
      by (simp add: effects del: apply_event.simps)
  next
    case (CompleteSession sid success result now)
    then have fresh: "sid \<notin> set (completions evs)"
      using assms(1) by simp
    have eq: "completions (ev # evs) = sid # completions evs"
      using CompleteSession by simp
    show ?thesis
    proof (cases "sid \<in> ?D")
      case True
      then have "?D \<inter> set (completions (ev # evs)) = insert sid (?D \<inter> set (completions evs))"
        using eq by auto
      then have "card (?D \<inter> set (completions (ev # evs)))
                   = Suc (card (?D \<inter> set (completions evs)))"
        using fin fresh by simp
      then show ?thesis
        using le fin run running_apply_event[OF run, of ev] CompleteSession True
        by (simp add: effects del: apply_event.simps)
    next
      case False
      then have "?D \<inter> set (completions (ev # evs)) = ?D \<inter> set (completions evs)"
        using eq by auto
      then show ?thesis
        using le fin run running_apply_event[OF run, of ev] CompleteSession False
        by (simp add: effects del: apply_event.simps)
    qed
  qed (use le fin run running_apply_event[OF run, of ev] in
        \<open>simp_all add: effects del: apply_event.simps\<close>)
qed

lemma distinct_completions_tl:
  "distinct (completions (ev # evs)) \<Longrightarrow> distinct (completions evs)"
  by (cases ev) simp_all

lemma pending_inv_fold:
  "distinct (completions evs) \<Longrightarrow> pending_inv m evs \<Longrightarrow> pending_inv (fold apply_event evs m) []"
proof (induction evs arbitrary: m)
  case Nil
  then show ?case by simp
next
  case (Cons ev evs)
  from Cons.prems have "pending_inv (apply_event ev m) evs"
    by (rule pending_inv_step)
  with Cons.IH distinct_completions_tl[OF Cons.prems(1)] show ?case by simp
qed

lemma pending_inv_new: "pending_inv new_monitor evs"
  by (simp add: pending_inv_def new_monitor_def new_stats_def)

lemma completions_append: "completions (xs @ ys) = completions xs @ completions ys"
  by (induction xs rule: completions.induct) simp_all

lemma distinct_completions_take:
  assumes "distinct (completions evs)"
  shows "distinct (completions (take n evs))"
proof -
  have "completions evs = completions (take n evs) @ completions (drop n evs)"
    by (metis append_take_drop_id completions_append)
  with assms show ?thesis by (metis distinct_append)
qed

text \<open>
  C8 (as amended). For every sequence of monitor events in which \<^verbatim>\<open>completeSession\<close>
  is called at most once per session id, every snapshot (the state after any prefix of
  the sequence, starting from a fresh monitor) has \<open>completed + failed \<le> total\<close> and
  \<open>running \<ge> 0\<close>.
\<close>

theorem monitor_counters_invariant:
  assumes "distinct (completions evs)"
  shows "completed (stats (run_events (take n evs) new_monitor))
           + failed (stats (run_events (take n evs) new_monitor))
         \<le> total (stats (run_events (take n evs) new_monitor))
       \<and> 0 \<le> running (stats (run_events (take n evs) new_monitor))"
proof -
  have "pending_inv (fold apply_event (take n evs) new_monitor) []"
    using distinct_completions_take[OF assms] pending_inv_new by (rule pending_inv_fold)
  then show ?thesis by (simp add: pending_inv_def run_events_def)
qed

lemmas monitor_eval =
  run_events_def new_monitor_def new_stats_def monitor_defs logEvent_def bump_def
  effectiveStart_def Let_def

theorem monitor_counters_invariant_witness:
  "distinct (completions (take 3 double_completion))
   \<and> completed (stats (run_events (take 3 double_completion) new_monitor))
       + failed (stats (run_events (take 3 double_completion) new_monitor))
     \<le> total (stats (run_events (take 3 double_completion) new_monitor))
   \<and> 0 \<le> running (stats (run_events (take 3 double_completion) new_monitor))"
proof -
  have d: "distinct (completions (take 3 double_completion))"
    by (simp add: double_completion_def)
  from monitor_counters_invariant[OF d, of 3] d show ?thesis by simp
qed

text \<open>
  C8 (as stated) fails: completing the one registered session twice leaves
  \<open>completed + failed = 2\<close> and \<open>total = 1\<close>.
\<close>

theorem monitor_double_completion_counterexample:
  "\<not> (completed (stats (run_events double_completion new_monitor))
        + failed (stats (run_events double_completion new_monitor))
      \<le> total (stats (run_events double_completion new_monitor)))"
  by (simp add: double_completion_def monitor_eval)

text \<open>
  C10. Each monitor method that takes a session id leaves the whole monitor (counters,
  session records, event log) unchanged when that id was never registered, and raises
  nothing.
\<close>

theorem unregistered_session_events_are_noops:
  assumes "sessions m sid = None"
  shows "startSession sid now m = m
       \<and> updateSessionStep sid step now m = m
       \<and> recordWaitingPage sid waitTime queuePosition m = m
       \<and> recordWaitingPagePassed sid m = m
       \<and> completeSession sid success result now m = m
       \<and> recordError sid step e now m = (None, m)"
  using assms by (simp add: monitor_defs)

theorem unregistered_session_events_are_noops_witness:
  "sessions new_monitor ''ghost'' = None
   \<and> startSession ''ghost'' 7 new_monitor = new_monitor
   \<and> updateSessionStep ''ghost'' ''step1-course'' 7 new_monitor = new_monitor
   \<and> recordWaitingPage ''ghost'' 30 4 new_monitor = new_monitor
   \<and> recordWaitingPagePassed ''ghost'' new_monitor = new_monitor
   \<and> completeSession ''ghost'' True None 7 new_monitor = new_monitor
   \<and> recordError ''ghost'' ''step1-course'' (JsError ''timeout'') 7 new_monitor = (None, new_monitor)"
proof -
  have h: "sessions new_monitor ''ghost'' = None"
    by (simp add: new_monitor_def)
  from unregistered_session_events_are_noops[OF h] h show ?thesis by simp
qed

section \<open>Properties of the retry handler\<close>

lemma after_failed_retry_simps [simp]:
  "attempts_of (after_failed_retry h op) op = attempts_of h op + 1"
  "waits (after_failed_retry h op) = waits h @ [min (1000 * 2 ^ attempts_of h op) 10000]"
  "calls (after_failed_retry h op) = calls h + 1"
  "hasPerformanceMonitor (after_failed_retry h op) = hasPerformanceMonitor h"
  "attempts_of (h\<lparr> recordedErrors := r \<rparr>) op = attempts_of h op"
  by (simp_all add: after_failed_retry_def attempts_of_def)

lemma handleNetworkError_exhausted:
  "maxRetries \<le> attempts_of h op \<Longrightarrow>
   handleNetworkError e op f maxRetries h =
     (Inl (JsError (''Network error in '' @ op @ '' after '' @ show_nat maxRetries
                      @ '' retries: '' @ err_message e)),
      if hasPerformanceMonitor h
      then h\<lparr> recordedErrors := recordedErrors h @
                [(op, ''Network error after '' @ show_nat maxRetries @ '' retries: '' @ err_message e)] \<rparr>
      else h)"
  by (subst handleNetworkError.simps) simp

lemma handleNetworkError_retry_fails:
  "attempts_of h op < maxRetries \<Longrightarrow> f (calls h) = Inl e' \<Longrightarrow>
   handleNetworkError e op f maxRetries h =
     handleNetworkError e' op f maxRetries (after_failed_retry h op)"
  by (subst handleNetworkError.simps) (simp add: after_failed_retry_def)

lemma handleNetworkError_retry_succeeds:
  "attempts_of h op < maxRetries \<Longrightarrow> f (calls h) = Inr r \<Longrightarrow>
   handleNetworkError e op f maxRetries h =
     (Inr r,
      h\<lparr> retryAttempts := (retryAttempts h)(op := None),
         waits := waits h @ [min (1000 * 2 ^ attempts_of h op) 10000],
         calls := calls h + 1 \<rparr>)"
  by (subst handleNetworkError.simps) simp

lemma show_nat_3: "show_nat 3 = ''3''"
  by (simp add: show_nat.simps digit_char_def)

lemma three_failures:
  assumes a0: "attempts_of h op = 0"
    and f0: "f (calls h) = Inl e1" and f1: "f (calls h + 1) = Inl e2" and f2: "f (calls h + 2) = Inl e3"
  shows "fst (handleNetworkError_default e op f h)
           = Inl (JsError (''Network error in '' @ op @ '' after 3 retries: '' @ err_message e3))"
    and "waits (snd (handleNetworkError_default e op f h)) = waits h @ [1000, 2000, 4000]"
    and "calls (snd (handleNetworkError_default e op f h)) = calls h + 3"
    and "attempts_of (snd (handleNetworkError_default e op f h)) op = 3"
proof -
  let ?h1 = "after_failed_retry h op"
  let ?h2 = "after_failed_retry ?h1 op"
  let ?h3 = "after_failed_retry ?h2 op"
  have s1: "handleNetworkError e op f 3 h = handleNetworkError e1 op f 3 ?h1"
    by (rule handleNetworkError_retry_fails) (use f0 in \<open>simp_all add: a0\<close>)
  have s2: "handleNetworkError e1 op f 3 ?h1 = handleNetworkError e2 op f 3 ?h2"
    by (rule handleNetworkError_retry_fails) (use f1 in \<open>simp_all add: a0\<close>)
  have s3: "handleNetworkError e2 op f 3 ?h2 = handleNetworkError e3 op f 3 ?h3"
    by (rule handleNetworkError_retry_fails) (use f2 in \<open>simp_all add: a0 numeral_2_eq_2\<close>)
  have s4: "handleNetworkError e3 op f 3 ?h3 =
     (Inl (JsError (''Network error in '' @ op @ '' after '' @ show_nat 3 @ '' retries: '' @ err_message e3)),
      if hasPerformanceMonitor ?h3
      then ?h3\<lparr> recordedErrors := recordedErrors ?h3 @
                [(op, ''Network error after '' @ show_nat 3 @ '' retries: '' @ err_message e3)] \<rparr>
      else ?h3)"
    by (rule handleNetworkError_exhausted) (simp add: a0)
  note all = handleNetworkError_default_def s1 s2 s3 s4 show_nat_3
  show "fst (handleNetworkError_default e op f h)
           = Inl (JsError (''Network error in '' @ op @ '' after 3 retries: '' @ err_message e3))"
    by (simp only: all fst_conv) simp
  show "waits (snd (handleNetworkError_default e op f h)) = waits h @ [1000, 2000, 4000]"
    by (simp only: all snd_conv) (simp add: a0)
  show "calls (snd (handleNetworkError_default e op f h)) = calls h + 3"
    by (simp only: all snd_conv) simp
  show "attempts_of (snd (handleNetworkError_default e op f h)) op = 3"
    by (simp only: all snd_conv) (simp add: a0)
qed


lemma waits_extend:
  "\<exists>rest. waits (snd (handleNetworkError e op f maxRetries h)) = waits h @ rest"
proof (induction e op f maxRetries h rule: handleNetworkError.induct)
  case (1 error operation retryFunction maxRetries h)
  show ?case
  proof (cases "maxRetries \<le> attempts_of h operation")
    case True
    then show ?thesis by (simp add: handleNetworkError_exhausted)
  next
    case False
    show ?thesis
    proof (cases "retryFunction (calls h)")
      case (Inr r)
      with False show ?thesis by (simp add: handleNetworkError_retry_succeeds)
    next
      case (Inl e')
      from "1.IH"[OF False Inl] obtain rest where
        "waits (snd (handleNetworkError e' operation retryFunction maxRetries (after_failed_retry h operation)))
           = waits (after_failed_retry h operation) @ rest"
        by (auto simp: after_failed_retry_def)
      with False Inl show ?thesis
        by (simp add: handleNetworkError_retry_fails[of h operation maxRetries retryFunction e'])
    qed
  qed
qed

lemma first_wait:
  assumes "attempts_of h op < maxRetries"
  shows "\<exists>rest. waits (snd (handleNetworkError e op f maxRetries h))
           = waits h @ min (1000 * 2 ^ attempts_of h op) 10000 # rest"
proof (cases "f (calls h)")
  case (Inr r)
  with assms show ?thesis by (simp add: handleNetworkError_retry_succeeds)
next
  case (Inl e')
  obtain rest where
    "waits (snd (handleNetworkError e' op f maxRetries (after_failed_retry h op)))
       = waits (after_failed_retry h op) @ rest"
    using waits_extend by blast
  with assms Inl show ?thesis
    by (simp add: handleNetworkError_retry_fails[of h op maxRetries f e'])
qed

lemma success_at:
  assumes a0: "attempts_of h op = 0" and j: "j < 3"
    and fails: "\<forall>i<j. isl (f (calls h + i))" and ok: "f (calls h + j) = Inr r"
  shows "fst (handleNetworkError_default e op f h) = Inr r"
    and "waits (snd (handleNetworkError_default e op f h)) = waits h @ take (Suc j) [1000, 2000, 4000]"
    and "retryAttempts (snd (handleNetworkError_default e op f h)) op = None"
    and "calls (snd (handleNetworkError_default e op f h)) = calls h + Suc j"
proof -
  let ?h1 = "after_failed_retry h op"
  let ?h2 = "after_failed_retry ?h1 op"
  let ?R = "handleNetworkError_default e op f h"
  consider "j = 0" | "j = 1" | "j = 2" using j by linarith
  then have "fst ?R = Inr r \<and> waits (snd ?R) = waits h @ take (Suc j) [1000, 2000, 4000]
        \<and> retryAttempts (snd ?R) op = None \<and> calls (snd ?R) = calls h + Suc j"
  proof cases
    case 1
    have "handleNetworkError e op f 3 h = (Inr r,
      h\<lparr> retryAttempts := (retryAttempts h)(op := None),
         waits := waits h @ [min (1000 * 2 ^ attempts_of h op) 10000],
         calls := calls h + 1 \<rparr>)"
      by (rule handleNetworkError_retry_succeeds) (use ok 1 in \<open>simp_all add: a0\<close>)
    then show ?thesis using 1 by (simp add: handleNetworkError_default_def a0)
  next
    case 2
    from fails 2 obtain e1 where f0: "f (calls h) = Inl e1"
      by (metis add.right_neutral isl_def less_one)
    have s1: "handleNetworkError e op f 3 h = handleNetworkError e1 op f 3 ?h1"
      by (rule handleNetworkError_retry_fails) (use f0 in \<open>simp_all add: a0\<close>)
    have "handleNetworkError e1 op f 3 ?h1 = (Inr r,
      ?h1\<lparr> retryAttempts := (retryAttempts ?h1)(op := None),
         waits := waits ?h1 @ [min (1000 * 2 ^ attempts_of ?h1 op) 10000],
         calls := calls ?h1 + 1 \<rparr>)"
      by (rule handleNetworkError_retry_succeeds) (use ok 2 in \<open>simp_all add: a0\<close>)
    then show ?thesis using 2 s1 by (simp add: handleNetworkError_default_def a0)
  next
    case 3
    from fails 3 obtain e1 where f0: "f (calls h) = Inl e1"
      by (metis add.right_neutral isl_def pos2)
    from fails 3 obtain e2 where f1: "f (calls h + 1) = Inl e2"
      by (metis isl_def one_less_numeral_iff semiring_norm(76))
    have s1: "handleNetworkError e op f 3 h = handleNetworkError e1 op f 3 ?h1"
      by (rule handleNetworkError_retry_fails) (use f0 in \<open>simp_all add: a0\<close>)
    have s2: "handleNetworkError e1 op f 3 ?h1 = handleNetworkError e2 op f 3 ?h2"
      by (rule handleNetworkError_retry_fails) (use f1 in \<open>simp_all add: a0\<close>)
    have "handleNetworkError e2 op f 3 ?h2 = (Inr r,
      ?h2\<lparr> retryAttempts := (retryAttempts ?h2)(op := None),
         waits := waits ?h2 @ [min (1000 * 2 ^ attempts_of ?h2 op) 10000],
         calls := calls ?h2 + 1 \<rparr>)"
      by (rule handleNetworkError_retry_succeeds) (use ok 3 in \<open>simp_all add: a0 numeral_2_eq_2\<close>)
    then show ?thesis using 3 s1 s2 by (simp add: handleNetworkError_default_def a0)
  qed
  then show "fst ?R = Inr r"
    and "waits (snd ?R) = waits h @ take (Suc j) [1000, 2000, 4000]"
    and "retryAttempts (snd ?R) op = None"
    and "calls (snd ?R) = calls h + Suc j" by simp_all
qed


text \<open>
  C3. With the default \<^verbatim>\<open>maxRetries = 3\<close> and the stored counter of the operation at 0
  (a fresh handler, or a counter cleared by an earlier success or reset): when the three
  retries all fail, the handler waits 1000, 2000 and 4000 ms before them, invokes the
  retry function exactly three times, and throws an error whose message holds the
  operation name and the retry count; when retry number \<open>j + 1\<close> is the first to
  succeed, its value is returned after the first \<open>j + 1\<close> delays, the stored counter is
  back to 0, and whatever a later call for the same operation does, its first wait is
  1000 ms again.
\<close>

theorem retry_backoff_schedule:
  assumes "attempts_of h op = 0"
  shows "(f (calls h) = Inl e1 \<and> f (calls h + 1) = Inl e2 \<and> f (calls h + 2) = Inl e3 \<longrightarrow>
            fst (handleNetworkError_default e op f h)
              = Inl (JsError (''Network error in '' @ op @ '' after 3 retries: '' @ err_message e3))
          \<and> waits (snd (handleNetworkError_default e op f h)) = waits h @ [1000, 2000, 4000]
          \<and> calls (snd (handleNetworkError_default e op f h)) = calls h + 3)
       \<and> (j < 3 \<and> (\<forall>i<j. isl (f (calls h + i))) \<and> f (calls h + j) = Inr r \<longrightarrow>
            fst (handleNetworkError_default e op f h) = Inr r
          \<and> waits (snd (handleNetworkError_default e op f h)) = waits h @ take (Suc j) [1000, 2000, 4000]
          \<and> calls (snd (handleNetworkError_default e op f h)) = calls h + Suc j
          \<and> attempts_of (snd (handleNetworkError_default e op f h)) op = 0
          \<and> (\<forall>e' f'. \<exists>rest.
                waits (snd (handleNetworkError_default e' op (f' :: nat \<Rightarrow> js_error + 'a)
                              (snd (handleNetworkError_default e op f h))))
                  = waits (snd (handleNetworkError_default e op f h)) @ 1000 # rest))"
proof (intro conjI impI)
  assume fs: "f (calls h) = Inl e1 \<and> f (calls h + 1) = Inl e2 \<and> f (calls h + 2) = Inl e3"
  then have f0: "f (calls h) = Inl e1" and f1: "f (calls h + 1) = Inl e2"
    and f2: "f (calls h + 2) = Inl e3" by simp_all
  show "fst (handleNetworkError_default e op f h)
          = Inl (JsError (''Network error in '' @ op @ '' after 3 retries: '' @ err_message e3))"
    by (rule three_failures(1)[OF assms f0 f1 f2])
  show "waits (snd (handleNetworkError_default e op f h)) = waits h @ [1000, 2000, 4000]"
    by (rule three_failures(2)[OF assms f0 f1 f2])
  show "calls (snd (handleNetworkError_default e op f h)) = calls h + 3"
    by (rule three_failures(3)[OF assms f0 f1 f2])
next
  assume ok: "j < 3 \<and> (\<forall>i<j. isl (f (calls h + i))) \<and> f (calls h + j) = Inr r"
  then have j: "j < 3" and fails: "\<forall>i<j. isl (f (calls h + i))" and succ: "f (calls h + j) = Inr r"
    by simp_all
  let ?h' = "snd (handleNetworkError_default e op f h)"
  show "fst (handleNetworkError_default e op f h) = Inr r"
    by (rule success_at(1)[OF assms j fails succ])
  show "waits ?h' = waits h @ take (Suc j) [1000, 2000, 4000]"
    by (rule success_at(2)[OF assms j fails succ])
  show "calls ?h' = calls h + Suc j"
    by (rule success_at(4)[OF assms j fails succ])
  have cleared: "retryAttempts ?h' op = None"
    by (rule success_at(3)[OF assms j fails succ])
  then show zero: "attempts_of ?h' op = 0"
    by (simp add: attempts_of_def)
  show "\<forall>e' f'. \<exists>rest.
          waits (snd (handleNetworkError_default e' op (f' :: nat \<Rightarrow> js_error + 'a) ?h')) = waits ?h' @ 1000 # rest"
  proof (intro allI)
    fix e' and f' :: "nat \<Rightarrow> js_error + 'a"
    have "attempts_of ?h' op < 3" using zero by simp
    from first_wait[OF this, of e' f'] show
      "\<exists>rest. waits (snd (handleNetworkError_default e' op f' ?h')) = waits ?h' @ 1000 # rest"
      using zero unfolding handleNetworkError_default_def by simp
  qed
qed

theorem retry_backoff_schedule_witness:
  "attempts_of (new_error_handler True) ''navigate'' = 0
   \<and> fst (handleNetworkError_default (JsError ''reset'') ''navigate'' always_down (new_error_handler True))
       = Inl (JsError ''Network error in navigate after 3 retries: socket hang up'')
   \<and> waits (snd (handleNetworkError_default (JsError ''reset'') ''navigate'' always_down
                    (new_error_handler True))) = [1000, 2000, 4000]
   \<and> fst (handleNetworkError_default (JsError ''reset'') ''navigate'' up_after_one (new_error_handler True))
       = Inr ''loaded''
   \<and> waits (snd (handleNetworkError_default (JsError ''reset'') ''navigate'' up_after_one
                    (new_error_handler True))) = [1000, 2000]
   \<and> attempts_of (snd (handleNetworkError_default (JsError ''reset'') ''navigate'' up_after_one
                    (new_error_handler True))) ''navigate'' = 0"
proof -
  have a: "attempts_of (new_error_handler True) ''navigate'' = 0"
    by (simp add: new_error_handler_def attempts_of_def)
  have c: "calls (new_error_handler True) = 0" and w: "waits (new_error_handler True) = []"
    by (simp_all add: new_error_handler_def)
  have down: "fst (handleNetworkError_default (JsError ''reset'') ''navigate'' always_down (new_error_handler True))
       = Inl (JsError ''Network error in navigate after 3 retries: socket hang up'')
   \<and> waits (snd (handleNetworkError_default (JsError ''reset'') ''navigate'' always_down
                    (new_error_handler True))) = [1000, 2000, 4000]"
    using retry_backoff_schedule[OF a, of always_down "JsError ''socket hang up''"
        "JsError ''socket hang up''" "JsError ''socket hang up''" "JsError ''reset''" 0 "''x''"]
    by (simp add: c w always_down_def)
  have up: "fst (handleNetworkError_default (JsError ''reset'') ''navigate'' up_after_one (new_error_handler True))
       = Inr ''loaded''
   \<and> waits (snd (handleNetworkError_default (JsError ''reset'') ''navigate'' up_after_one
                    (new_error_handler True))) = [1000, 2000]
   \<and> attempts_of (snd (handleNetworkError_default (JsError ''reset'') ''navigate'' up_after_one
                    (new_error_handler True))) ''navigate'' = 0"
    using retry_backoff_schedule[OF a, of up_after_one "JsError ''socket hang up''"
        "JsError ''socket hang up''" "JsError ''socket hang up''" "JsError ''reset''" 1 "''loaded''"]
    by (simp add: c w up_after_one_def) blast
  from a down up show ?thesis by simp
qed

section \<open>Properties of the queue-wait handler\<close>

lemma wp_info_fields [simp]:
  "clock (wp_info l s) = clock s" "checks (wp_info l s) = checks s"
  "polled (wp_info l s) = polled s" "sleeps (wp_info l s) = sleeps s"
  "timeouts (wp_info l s) = timeouts s" "wp_logs (wp_info l s) = wp_logs s @ [l]"
  by (simp_all add: wp_info_def)

lemma isWaitingPage_fields [simp]:
  "fst (isWaitingPage w s) = isWaitingPage_at w (checks s)"
  "clock (snd (isWaitingPage w s)) = clock s + detect_cost w (checks s)"
  "checks (snd (isWaitingPage w s)) = checks s + 1"
  "polled (snd (isWaitingPage w s)) = polled s"
  "sleeps (snd (isWaitingPage w s)) = sleeps s"
  "timeouts (snd (isWaitingPage w s)) = timeouts s"
  "wp_logs (snd (isWaitingPage w s)) = wp_logs s"
  by (simp_all add: isWaitingPage_def)

lemma waitLoop_timed_out:
  "\<not> clock s - startTime < maxWaitTime \<Longrightarrow>
   waitLoop w maxWaitTime startTime lastInfo s = (Inr False, wp_info (LogWaitTimeout maxWaitTime) s)"
  by (subst waitLoop.simps) simp

lemma waitLoop_passed:
  "clock s - startTime < maxWaitTime \<Longrightarrow> \<not> isWaitingPage_at w (checks s) \<Longrightarrow>
   waitLoop w maxWaitTime startTime lastInfo s
     = (Inr True, wp_info LogWaitCompleted (snd (isWaitingPage w s)))"
  by (subst waitLoop.simps) (simp add: isWaitingPage_def)

lemma status_lines_append: "status_lines (xs @ ys) = status_lines xs @ status_lines ys"
  by (induction xs rule: status_lines.induct) simp_all

lemma before_sleep_fields [simp]:
  "clock (before_sleep w lastInfo s)
     = clock s + detect_cost w (checks s) + info_cost w (length (polled s))"
  "checks (before_sleep w lastInfo s) = checks s + 1"
  "polled (before_sleep w lastInfo s) = polled s @ [getWaitingInfo_at w (length (polled s))]"
  "sleeps (before_sleep w lastInfo s) = sleeps s"
  "timeouts (before_sleep w lastInfo s) = timeouts s"
  "status_lines (wp_logs (before_sleep w lastInfo s))
     = status_lines (wp_logs s) @ changes lastInfo [getWaitingInfo_at w (length (polled s))]"
  by (simp_all add: before_sleep_def getWaitingInfo_def isWaitingPage_def status_lines_append)

lemma waitLoop_poll:
  "clock s - startTime < maxWaitTime \<Longrightarrow> isWaitingPage_at w (checks s) \<Longrightarrow>
   timeout_fails w (timeouts s) = None \<Longrightarrow>
   waitLoop w maxWaitTime startTime lastInfo s
     = waitLoop w maxWaitTime startTime (Some (getWaitingInfo_at w (length (polled s))))
         (after_poll w lastInfo s)"
  by (subst waitLoop.simps)
     (simp add: isWaitingPage_def getWaitingInfo_def waitForTimeout_def wp_info_def after_poll_def
        before_sleep_def)

lemma waitLoop_caught:
  "clock s - startTime < maxWaitTime \<Longrightarrow> isWaitingPage_at w (checks s) \<Longrightarrow>
   timeout_fails w (timeouts s) = Some error \<Longrightarrow> timeout_fails w (timeouts s + 1) = None \<Longrightarrow>
   waitLoop w maxWaitTime startTime lastInfo s
     = waitLoop w maxWaitTime startTime (Some (getWaitingInfo_at w (length (polled s))))
         (after_caught w lastInfo error s)"
  by (subst waitLoop.simps)
     (simp add: isWaitingPage_def getWaitingInfo_def waitForTimeout_def wp_info_def after_poll_def
        before_sleep_def after_caught_def)

lemma waitLoop_thrown:
  "clock s - startTime < maxWaitTime \<Longrightarrow> isWaitingPage_at w (checks s) \<Longrightarrow>
   timeout_fails w (timeouts s) = Some error \<Longrightarrow> timeout_fails w (timeouts s + 1) = Some error' \<Longrightarrow>
   waitLoop w maxWaitTime startTime lastInfo s = (Inl error', after_caught w lastInfo error s)"
  by (subst waitLoop.simps)
     (simp add: isWaitingPage_def getWaitingInfo_def waitForTimeout_def wp_info_def after_poll_def
        before_sleep_def after_caught_def)

lemma waitInterval_bounds: "1000 \<le> waitInterval info" "waitInterval info \<le> 30000"
  by (simp_all add: waitInterval_def)

lemma after_poll_fields:
  "timeout_fails w (timeouts s) = None \<Longrightarrow>
   clock (after_poll w lastInfo s)
     = clock s + detect_cost w (checks s) + info_cost w (length (polled s))
       + waitInterval (getWaitingInfo_at w (length (polled s)))"
  "polled (after_poll w lastInfo s) = polled s @ [getWaitingInfo_at w (length (polled s))]"
  "status_lines (wp_logs (after_poll w lastInfo s))
     = status_lines (wp_logs s) @ changes lastInfo [getWaitingInfo_at w (length (polled s))]"
  "timeouts (after_poll w lastInfo s) = timeouts s + 1"
  by (simp_all add: after_poll_def waitForTimeout_def split: option.splits)

lemma after_caught_fields:
  "timeout_fails w (timeouts s + 1) = None \<Longrightarrow>
   clock (after_caught w lastInfo error s) = clock (after_poll w lastInfo s) + 5000"
  "polled (after_caught w lastInfo error s) = polled s @ [getWaitingInfo_at w (length (polled s))]"
  "status_lines (wp_logs (after_caught w lastInfo error s))
     = status_lines (wp_logs s) @ changes lastInfo [getWaitingInfo_at w (length (polled s))]"
  by (simp_all add: after_caught_def waitForTimeout_def after_poll_fields status_lines_append
        split: option.splits)

lemma after_poll_clock_mono: "clock s \<le> clock (after_poll w lastInfo s)"
  by (simp add: after_poll_def waitForTimeout_def split: option.splits)


lemma waitLoop_status:
  "\<exists>rest. polled (snd (waitLoop w maxWaitTime startTime lastInfo s)) = polled s @ rest
     \<and> status_lines (wp_logs (snd (waitLoop w maxWaitTime startTime lastInfo s)))
         = status_lines (wp_logs s) @ changes lastInfo rest"
proof (induction "startTime + maxWaitTime - clock s" arbitrary: s lastInfo rule: less_induct)
  case less
  let ?info = "getWaitingInfo_at w (length (polled s))"
  show ?case
  proof (cases "clock s - startTime < maxWaitTime")
    case False
    then show ?thesis by (simp add: waitLoop_timed_out status_lines_append)
  next
    case cond: True
    show ?thesis
    proof (cases "isWaitingPage_at w (checks s)")
      case False
      with cond show ?thesis by (simp add: waitLoop_passed status_lines_append)
    next
      case wait: True
      show ?thesis
      proof (cases "timeout_fails w (timeouts s)")
        case None
        let ?s' = "after_poll w lastInfo s"
        have "clock s + 1000 \<le> clock ?s'"
          using after_poll_fields(1)[OF None, of lastInfo] waitInterval_bounds(1)[of ?info] by linarith
        then have "startTime + maxWaitTime - clock ?s' < startTime + maxWaitTime - clock s"
          using cond by linarith
        from less.hyps[OF this, of "Some ?info"] obtain rest where
          "polled (snd (waitLoop w maxWaitTime startTime (Some ?info) ?s')) = polled ?s' @ rest"
          "status_lines (wp_logs (snd (waitLoop w maxWaitTime startTime (Some ?info) ?s')))
             = status_lines (wp_logs ?s') @ changes (Some ?info) rest"
          by auto
        then show ?thesis
          unfolding waitLoop_poll[OF cond wait None] after_poll_fields
          by (intro exI[of _ "?info # rest"]) simp
      next
        case (Some err)
        show ?thesis
        proof (cases "timeout_fails w (timeouts s + 1)")
          case None
          let ?s' = "after_caught w lastInfo err s"
          have "clock s + 5000 \<le> clock ?s'"
            using after_caught_fields(1)[OF None, of lastInfo err] after_poll_clock_mono[of s w lastInfo]
            by linarith
          then have "startTime + maxWaitTime - clock ?s' < startTime + maxWaitTime - clock s"
            using cond by linarith
          from less.hyps[OF this, of "Some ?info"] obtain rest where
            "polled (snd (waitLoop w maxWaitTime startTime (Some ?info) ?s')) = polled ?s' @ rest"
            "status_lines (wp_logs (snd (waitLoop w maxWaitTime startTime (Some ?info) ?s')))
               = status_lines (wp_logs ?s') @ changes (Some ?info) rest"
            by auto
          then show ?thesis
            unfolding waitLoop_caught[OF cond wait Some None] after_caught_fields
            by (intro exI[of _ "?info # rest"]) simp
        next
          case (Some err')
          show ?thesis
            unfolding waitLoop_thrown[OF cond wait \<open>timeout_fails w (timeouts s) = Some err\<close> Some]
              snd_conv after_caught_fields
            by (intro exI[of _ "[?info]"]) simp
        qed
      qed
    qed
  qed
qed









lemmas page_eval =
  waitForCompletion_def waitLoop.simps isWaitingPage_def getWaitingInfo_def waitForTimeout_def
  wp_info_def waitInterval_def new_page_def quiet_page_def busy_page_def closing_page_def
  handleWaitingIfPresent_def fm_handleWaitingPageIfPresent_def waiting_fm_def


text \<open>
  C9 fails. The wait loop reads the queue position and the estimated wait on every poll,
  but \<^verbatim>\<open>FlowManager._handleWaitingPageIfPresent\<close> builds the \<^verbatim>\<open>WaitingPage\<close> without its
  monitor and never calls \<^verbatim>\<open>recordWaitingPage\<close>: whatever the page does, the flow manager's
  monitor is left as it was. A session that finds the waiting page on three checks passes
  with one status line in its own logger, while its monitor, which tracks the session, has
  counted no waiting page and logged no \<^verbatim>\<open>WAITING_PAGE\<close> event; one call of
  \<^verbatim>\<open>recordWaitingPage\<close>, which exists to receive the observation, would have recorded it.
\<close>

theorem waiting_status_never_reaches_monitor:
  "fm_monitor (snd (fm_handleWaitingPageIfPresent w fm)) = fm_monitor fm
   \<and> polled (fm_page (snd (fm_handleWaitingPageIfPresent busy_page waiting_fm)))
       = [\<lparr> waitingCount = 3, estimatedTime = 10 \<rparr>, \<lparr> waitingCount = 3, estimatedTime = 10 \<rparr>,
          \<lparr> waitingCount = 3, estimatedTime = 10 \<rparr>]
   \<and> fst (fm_handleWaitingPageIfPresent busy_page waiting_fm) = Inr ()
   \<and> status_lines (wp_logs (fm_page (snd (fm_handleWaitingPageIfPresent busy_page waiting_fm))))
       = [(3, 10)]
   \<and> fm_monitor (snd (fm_handleWaitingPageIfPresent busy_page waiting_fm))
       = Some (registerSession ''test-1'' (Some 1) 0 new_monitor)
   \<and> waitingPageEncounters (stats (registerSession ''test-1'' (Some 1) 0 new_monitor)) = 0
   \<and> waiting (stats (registerSession ''test-1'' (Some 1) 0 new_monitor)) = 0
   \<and> eventLog (registerSession ''test-1'' (Some 1) 0 new_monitor)
       = [(''SESSION_REGISTERED'', ''test-1'')]
   \<and> waitingPageEncounters
        (stats (recordWaitingPage ''test-1'' 10 3 (registerSession ''test-1'' (Some 1) 0 new_monitor)))
       = 1
   \<and> waiting
        (stats (recordWaitingPage ''test-1'' 10 3 (registerSession ''test-1'' (Some 1) 0 new_monitor)))
       = 1
   \<and> eventLog (recordWaitingPage ''test-1'' 10 3 (registerSession ''test-1'' (Some 1) 0 new_monitor))
       = [(''SESSION_REGISTERED'', ''test-1''), (''WAITING_PAGE'', ''test-1'')]"
proof -
  have general: "fm_monitor (snd (fm_handleWaitingPageIfPresent w fm)) = fm_monitor fm"
    by (simp add: fm_handleWaitingPageIfPresent_def split: prod.splits sum.splits)
  have run: "polled (fm_page (snd (fm_handleWaitingPageIfPresent busy_page waiting_fm)))
       = [\<lparr> waitingCount = 3, estimatedTime = 10 \<rparr>, \<lparr> waitingCount = 3, estimatedTime = 10 \<rparr>,
          \<lparr> waitingCount = 3, estimatedTime = 10 \<rparr>]
   \<and> fst (fm_handleWaitingPageIfPresent busy_page waiting_fm) = Inr ()
   \<and> status_lines (wp_logs (fm_page (snd (fm_handleWaitingPageIfPresent busy_page waiting_fm))))
       = [(3, 10)]
   \<and> fm_monitor (snd (fm_handleWaitingPageIfPresent busy_page waiting_fm))
       = Some (registerSession ''test-1'' (Some 1) 0 new_monitor)"
    by (simp add: page_eval)
  have mon: "waitingPageEncounters (stats (registerSession ''test-1'' (Some 1) 0 new_monitor)) = 0
   \<and> waiting (stats (registerSession ''test-1'' (Some 1) 0 new_monitor)) = 0
   \<and> eventLog (registerSession ''test-1'' (Some 1) 0 new_monitor)
       = [(''SESSION_REGISTERED'', ''test-1'')]"
    by (simp add: registerSession_def logEvent_def new_monitor_def new_stats_def)
  have would: "waitingPageEncounters
        (stats (recordWaitingPage ''test-1'' 10 3 (registerSession ''test-1'' (Some 1) 0 new_monitor)))
       = 1
   \<and> waiting
        (stats (recordWaitingPage ''test-1'' 10 3 (registerSession ''test-1'' (Some 1) 0 new_monitor)))
       = 1
   \<and> eventLog (recordWaitingPage ''test-1'' 10 3 (registerSession ''test-1'' (Some 1) 0 new_monitor))
       = [(''SESSION_REGISTERED'', ''test-1''), (''WAITING_PAGE'', ''test-1'')]"
    by (simp add: recordWaitingPage_def registerSession_def logEvent_def new_monitor_def
          new_stats_def Let_def)
  from general run mon would show ?thesis by blast
qed

section \<open>Properties of the session assignment\<close>

lemma digit_char_inj: "a < 10 \<Longrightarrow> b < 10 \<Longrightarrow> digit_char a = digit_char b \<Longrightarrow> a = b"
proof -
  assume "a < 10" "b < 10" "digit_char a = digit_char b"
  moreover have "distinct ''0123456789''" by simp
  moreover have "length ''0123456789'' = 10" by simp
  ultimately show "a = b"
    unfolding digit_char_def by (metis nth_eq_iff_index_eq)
qed

lemma show_nat_small: "n < 10 \<Longrightarrow> show_nat n = [digit_char n]"
  by (simp add: show_nat.simps)

lemma show_nat_large:
  "\<not> n < 10 \<Longrightarrow> show_nat n = show_nat (n div 10) @ [digit_char (n mod 10)]"
  by (subst show_nat.simps) simp

lemma show_nat_nonempty: "show_nat n \<noteq> []"
  by (subst show_nat.simps) simp

lemma show_nat_inj: "show_nat m = show_nat n \<Longrightarrow> m = n"
proof (induction m arbitrary: n rule: show_nat.induct)
  case (1 m)
  show ?case
  proof (cases "m < 10")
    case True
    then have sm: "show_nat m = [digit_char m]" by (rule show_nat_small)
    have "n < 10"
    proof (rule ccontr)
      assume "\<not> n < 10"
      then have "show_nat n = show_nat (n div 10) @ [digit_char (n mod 10)]"
        by (rule show_nat_large)
      with sm "1.prems" show_nat_nonempty[of "n div 10"] show False by simp
    qed
    with True sm "1.prems" show ?thesis
      by (simp add: show_nat_small digit_char_inj)
  next
    case False
    then have sm: "show_nat m = show_nat (m div 10) @ [digit_char (m mod 10)]"
      by (rule show_nat_large)
    have nl: "\<not> n < 10"
    proof
      assume "n < 10"
      then have "show_nat n = [digit_char n]" by (rule show_nat_small)
      with sm "1.prems" show_nat_nonempty[of "m div 10"] show False by simp
    qed
    then have sn: "show_nat n = show_nat (n div 10) @ [digit_char (n mod 10)]"
      by (rule show_nat_large)
    from sm sn "1.prems" have eq: "show_nat (m div 10) = show_nat (n div 10)"
      and d: "digit_char (m mod 10) = digit_char (n mod 10)" by simp_all
    from "1.IH"[OF False eq] have "m div 10 = n div 10" .
    moreover from d have "m mod 10 = n mod 10" by (intro digit_char_inj) simp_all
    ultimately show ?thesis by (metis div_mult_mod_eq)
  qed
qed

lemma browser_name_inj:
  "0 < c \<Longrightarrow> browser_name i c = browser_name j c \<longleftrightarrow> i div c = j div c"
  by (auto simp: browser_name_def dest: show_nat_inj)

lemma createSessions_ids:
  "fst (createSessions sids mg)
     = map (\<lambda>k. browser_name k (tabsPerBrowser mg)) [sessionCounter mg ..< sessionCounter mg + length sids]"
proof (induction sids arbitrary: mg)
  case Nil
  then show ?case by simp
next
  case (Cons sid sids)
  let ?mg1 = "mg\<lparr> sessionCounter := sessionCounter mg + 1 \<rparr>"
  have "fst (createSessions (sid # sids) mg)
          = browser_name (sessionCounter mg) (tabsPerBrowser mg) # fst (createSessions sids ?mg1)"
    by (simp add: createSession_assign_def split: prod.splits)
  also have "\<dots> = browser_name (sessionCounter mg) (tabsPerBrowser mg)
        # map (\<lambda>k. browser_name k (tabsPerBrowser mg)) [Suc (sessionCounter mg) ..< Suc (sessionCounter mg) + length sids]"
    by (simp add: Cons.IH)
  also have "\<dots> = map (\<lambda>k. browser_name k (tabsPerBrowser mg))
        [sessionCounter mg ..< sessionCounter mg + length (sid # sids)]"
    by (subst (2) upt_rec) simp
  finally show ?case .
qed

lemma div_image_upt:
  assumes "0 < (c::nat)"
  shows "(\<lambda>k. k div c) ` {0..<n} = {0..<(n + c - 1) div c}"
proof (intro equalityI subsetI)
  fix j assume "j \<in> (\<lambda>k. k div c) ` {0..<n}"
  then obtain k where k: "k < n" "j = k div c" by auto
  then have "k + c \<le> n + c - 1" by simp
  then have "(k + c) div c \<le> (n + c - 1) div c" by (rule div_le_mono)
  then show "j \<in> {0..<(n + c - 1) div c}" using k assms by simp
next
  fix j assume "j \<in> {0..<(n + c - 1) div c}"
  then have "Suc j \<le> (n + c - 1) div c" by simp
  then have "Suc j * c \<le> n + c - 1"
    using assms by (simp add: less_eq_div_iff_mult_less_eq)
  then have "j * c < n" using assms by simp
  moreover have "(j * c) div c = j" using assms by simp
  ultimately show "j \<in> (\<lambda>k. k div c) ` {0..<n}" by force
qed

lemma card_browser_names:
  assumes "0 < c"
  shows "card (set (map (\<lambda>k. browser_name k c) [0..<n])) = (n + c - 1) div c"
proof -
  have "set (map (\<lambda>k. browser_name k c) [0..<n])
          = (\<lambda>j. ''browser-'' @ show_nat j) ` ((\<lambda>k. k div c) ` {0..<n})"
    using assms by (auto simp: browser_name_def image_image)
  also have "\<dots> = (\<lambda>j. ''browser-'' @ show_nat j) ` {0..<(n + c - 1) div c}"
    by (simp add: div_image_upt[OF assms])
  finally have "card (set (map (\<lambda>k. browser_name k c) [0..<n]))
      = card ((\<lambda>j. ''browser-'' @ show_nat j) ` {0..<(n + c - 1) div c})" by simp
  also have "\<dots> = card {0..<(n + c - 1) div c}"
    by (rule card_image) (auto simp: inj_on_def dest: show_nat_inj)
  finally show ?thesis by simp
qed

lemma distribute_push_keys:
  "map fst (distribute_push b sid d) = (if b \<in> set (map fst d) then map fst d else map fst d @ [b])"
  by (auto simp: distribute_push_def split: prod.splits)

lemma ceil_div_cases:
  assumes "0 < (c::nat)"
  shows "(i + c - 1) div c = (if i mod c = 0 then i div c else Suc (i div c))"
proof (cases "i mod c = 0")
  case True
  then have "i + c - 1 = (i div c) * c + (c - 1)"
    using assms by (metis Nat.add_diff_assoc Suc_leI add.right_neutral div_mult_mod_eq mult.commute One_nat_def)
  then have "(i + c - 1) div c = ((i div c) * c + (c - 1)) div c" by simp
  also have "\<dots> = i div c + (c - 1) div c" using assms by (simp only: div_mult_self3)
  also have "\<dots> = i div c" using assms by simp
  finally show ?thesis using True by simp
next
  case False
  then have r: "0 < i mod c" by simp
  have "i = (i div c) * c + i mod c" by simp
  then have "i + c - 1 = Suc (i div c) * c + (i mod c - 1)" using r
    by (metis Nat.add_diff_assoc Suc_leI add.assoc add.commute mult_Suc One_nat_def)
  then have "(i + c - 1) div c = (Suc (i div c) * c + (i mod c - 1)) div c" by simp
  also have "\<dots> = Suc (i div c) + (i mod c - 1) div c" using assms by (simp only: div_mult_self3)
  also have "\<dots> = Suc (i div c)" using assms
    by (simp add: div_less less_imp_diff_less)
  finally show ?thesis using False by simp
qed

lemma distribute_from_keys:
  assumes "0 < c"
  shows "map fst d = map (\<lambda>j. ''browser-'' @ show_nat j) [0..<(i + c - 1) div c] \<Longrightarrow>
         map fst (distribute_from c i sids d)
           = map (\<lambda>j. ''browser-'' @ show_nat j) [0..<(i + length sids + c - 1) div c]"
proof (induction sids arbitrary: i d)
  case Nil
  then show ?case by simp
next
  case (Cons sid sids)
  let ?b = "browser_name i c"
  let ?d' = "distribute_push ?b sid d"
  have name: "?b = ''browser-'' @ show_nat (i div c)"
    using assms by (simp add: browser_name_def)
  have nxt: "(Suc i + c - 1) div c = Suc (i div c)"
    using assms by simp
  have keys: "map fst ?d' = map (\<lambda>j. ''browser-'' @ show_nat j) [0..<(Suc i + c - 1) div c]"
  proof (cases "i mod c = 0")
    case True
    then have full: "(i + c - 1) div c = i div c"
      using ceil_div_cases[OF assms, of i] by simp
    have md: "map fst d = map (\<lambda>j. ''browser-'' @ show_nat j) [0..<i div c]"
      using Cons.prems full by simp
    have "?b \<notin> set (map fst d)"
      unfolding md name by (auto dest: show_nat_inj)
    then have "map fst ?d' = map fst d @ [?b]"
      by (simp add: distribute_push_keys)
    also have "\<dots> = map (\<lambda>j. ''browser-'' @ show_nat j) [0..<Suc (i div c)]"
      unfolding md name by simp
    finally show ?thesis unfolding nxt .
  next
    case False
    then have full: "(i + c - 1) div c = Suc (i div c)"
      using ceil_div_cases[OF assms, of i] by simp
    have md: "map fst d = map (\<lambda>j. ''browser-'' @ show_nat j) [0..<Suc (i div c)]"
      using Cons.prems full by simp
    have "?b \<in> set (map fst d)"
      unfolding md name by simp
    then have "map fst ?d' = map fst d"
      by (simp add: distribute_push_keys)
    then show ?thesis unfolding nxt md .
  qed
  from Cons.IH[of ?d' "Suc i", OF keys] show ?case by simp
qed

lemma ceiling_div_nat:
  assumes "0 < (c::nat)"
  shows "nat \<lceil>real n / real c\<rceil> = (n + c - 1) div c"
proof -
  let ?m = "(n + c - 1) div c"
  have a: "?m * c \<le> n + c - 1" by simp
  have b: "n + c - 1 < ?m * c + c"
    using assms dividend_less_div_times[of c "n + c - 1"] by (simp add: add.commute)
  from a assms have a': "?m * c < n + c" by linarith
  from b assms have b': "n \<le> ?m * c" by linarith
  have "real ?m * real c < real n + real c"
    using a' by (metis of_nat_add of_nat_less_iff of_nat_mult)
  then have lo: "real ?m - 1 < real n / real c"
    using assms by (simp add: field_simps)
  have "real n \<le> real ?m * real c"
    using b' by (metis of_nat_le_iff of_nat_mult)
  then have hi: "real n / real c \<le> real ?m"
    using assms by (simp add: field_simps)
  have "\<lceil>real n / real c\<rceil> = int ?m"
    by (rule ceiling_unique) (use lo hi in simp_all)
  then show ?thesis by simp
qed

text \<open>
  C2. On a manager whose session counter is 0 and whose capacity \<open>c\<close> (tabs per browser)
  is positive, the sessions of a run are assigned, in call order, to the browser ids
  \<open>browser-\<lfloor>k / c\<rfloor>\<close> for \<open>k = 0, 1, \<dots>\<close>; a run of \<open>N\<close> sessions uses exactly
  \<open>\<lceil>N / c\<rceil>\<close> distinct ids, and \<^verbatim>\<open>_distributeSessions\<close> builds a map with exactly those
  keys. Six sessions with capacity 5 in shared-context mode get \<open>browser-0\<close> five times and
  \<open>browser-1\<close> once.
\<close>

theorem session_assignment:
  assumes "0 < c" and "sessionCounter mg = 0" and "tabsPerBrowser mg = c"
  shows "fst (createSessions sids mg)
           = map (\<lambda>k. ''browser-'' @ show_nat (k div c)) [0..<length sids]
       \<and> card (set (fst (createSessions sids mg))) = nat \<lceil>real (length sids) / real c\<rceil>
       \<and> map fst (distributeSessions mg sids)
           = map (\<lambda>j. ''browser-'' @ show_nat j) [0..<nat \<lceil>real (length sids) / real c\<rceil>]
       \<and> fst (createSessions six_sessions (setTabsPerBrowser 5 (enableSharedContextMode new_manager)))
           = [''browser-0'', ''browser-0'', ''browser-0'', ''browser-0'', ''browser-0'', ''browser-1'']"
proof (intro conjI)
  have ids: "fst (createSessions sids mg) = map (\<lambda>k. browser_name k c) [0..<length sids]"
    using createSessions_ids[of sids mg] assms(2,3) by simp
  then show "fst (createSessions sids mg)
           = map (\<lambda>k. ''browser-'' @ show_nat (k div c)) [0..<length sids]"
    using assms(1) by (simp add: browser_name_def)
  show "card (set (fst (createSessions sids mg))) = nat \<lceil>real (length sids) / real c\<rceil>"
    unfolding ids ceiling_div_nat[OF assms(1)] by (rule card_browser_names[OF assms(1)])
  have "map fst ([] :: (string \<times> string list) list)
          = map (\<lambda>j. ''browser-'' @ show_nat j) [0..<(0 + c - 1) div c]"
    using assms(1) by simp
  from distribute_from_keys[OF assms(1) this, of sids]
  show "map fst (distributeSessions mg sids)
           = map (\<lambda>j. ''browser-'' @ show_nat j) [0..<nat \<lceil>real (length sids) / real c\<rceil>]"
    unfolding ceiling_div_nat[OF assms(1)] by (simp add: distributeSessions_def assms(3))
  show "fst (createSessions six_sessions (setTabsPerBrowser 5 (enableSharedContextMode new_manager)))
           = [''browser-0'', ''browser-0'', ''browser-0'', ''browser-0'', ''browser-0'', ''browser-1'']"
    by (simp add: six_sessions_def setTabsPerBrowser_def enableSharedContextMode_def new_manager_def
          createSession_assign_def browser_name_def show_nat.simps digit_char_def)
qed

theorem session_assignment_witness:
  "(0::nat) < 5
   \<and> sessionCounter (setTabsPerBrowser 5 (enableSharedContextMode new_manager)) = 0
   \<and> tabsPerBrowser (setTabsPerBrowser 5 (enableSharedContextMode new_manager)) = 5
   \<and> card (set (fst (createSessions six_sessions
                        (setTabsPerBrowser 5 (enableSharedContextMode new_manager))))) = 2
   \<and> map fst (distributeSessions (setTabsPerBrowser 5 (enableSharedContextMode new_manager))
                 six_sessions) = [''browser-0'', ''browser-1'']"
proof -
  let ?mg = "setTabsPerBrowser 5 (enableSharedContextMode new_manager)"
  have h1: "(0::nat) < 5" by simp
  have h2: "sessionCounter ?mg = 0"
    by (simp add: setTabsPerBrowser_def enableSharedContextMode_def new_manager_def)
  have h3: "tabsPerBrowser ?mg = 5"
    by (simp add: setTabsPerBrowser_def enableSharedContextMode_def new_manager_def)
  have n: "length six_sessions = 6" by (simp add: six_sessions_def)
  have c: "nat \<lceil>real 6 / real 5\<rceil> = 2" by simp
  have names: "map (\<lambda>j. ''browser-'' @ show_nat j) [0..<2] = [''browser-0'', ''browser-1'']"
    by (simp add: show_nat.simps digit_char_def upt_rec)
  note inst = session_assignment[OF h1 h2 h3, of six_sessions, unfolded n c names]
  from inst have "card (set (fst (createSessions six_sessions ?mg))) = 2"
    by blast
  moreover from inst have "map fst (distributeSessions ?mg six_sessions)
      = [''browser-0'', ''browser-1'']"
    by blast
  ultimately show ?thesis using h1 h2 h3 by blast
qed

section \<open>Properties of lazy creation\<close>

lemmas sf_eval =
  new_config_def new_manager_def startBrowser_def launchSettles_def
  callGetOrCreateSharedContext_def createSharedContext_def resume_def contextSettles_def
  two_requesters_def Let_def

lemma launch_guarded_startBrowser:
  assumes "launch_guarded c"
  shows "launch_guarded (snd (startBrowser b c))"
proof (cases "browsers (mgr c) b")
  case (Some h)
  with assms show ?thesis by (simp add: startBrowser_def)
next
  case None
  show ?thesis
  proof (cases "browserStarting (mgr c) b")
    case (Some p)
    with None assms show ?thesis by (simp add: startBrowser_def)
  next
    case none: None
    have fresh: "\<forall>p < length (launches c). snd (launches c ! p) = Pending \<longrightarrow> fst (launches c ! p) \<noteq> b"
      using assms none by (auto simp: launch_guarded_def)
    show ?thesis
      unfolding launch_guarded_def
    proof (intro allI impI)
      fix p
      assume p: "p < length (launches (snd (startBrowser b c)))"
        and pend: "snd (launches (snd (startBrowser b c)) ! p) = Pending"
      have l: "launches (snd (startBrowser b c)) = launches c @ [(b, Pending)]"
        and m: "browserStarting (mgr (snd (startBrowser b c)))
                  = (browserStarting (mgr c))(b \<mapsto> length (launches c))"
        using None none by (simp_all add: startBrowser_def)
      show "browserStarting (mgr (snd (startBrowser b c)))
              (fst (launches (snd (startBrowser b c)) ! p)) = Some p"
      proof (cases "p < length (launches c)")
        case True
        then have "launches (snd (startBrowser b c)) ! p = launches c ! p"
          by (simp add: l nth_append)
        with pend True fresh assms show ?thesis
          by (simp add: m launch_guarded_def)
      next
        case False
        with p have "p = length (launches c)" by (simp add: l)
        then show ?thesis by (simp add: l m)
      qed
    qed
  qed
qed

lemma launch_guarded_launchSettles:
  assumes "launch_guarded c" and "launchSettles p outcome c = Some c'"
  shows "launch_guarded c'"
proof -
  from assms(2) have p: "p < length (launches c)" and pend: "snd (launches c ! p) = Pending"
    by (simp_all add: launchSettles_def split: if_splits)
  let ?b = "fst (launches c ! p)"
  have "\<exists>st. st \<noteq> Pending \<and> launches c' = (launches c)[p := (?b, st)]
          \<and> browserStarting (mgr c') = (browserStarting (mgr c))(?b := None)"
  proof (cases outcome)
    case None
    with assms(2) p pend have "c' = c\<lparr> launches := (launches c)[p := (?b, Resolved)],
         mgr := (mgr c)\<lparr> browsers := (browsers (mgr c))(?b \<mapsto> p),
                          browserStarting := (browserStarting (mgr c))(?b := None) \<rparr> \<rparr>"
      by (simp add: launchSettles_def Let_def)
    then show ?thesis by (intro exI[of _ Resolved]) simp
  next
    case (Some e)
    with assms(2) p pend have "c' = c\<lparr> launches := (launches c)[p := (?b, Rejected e)],
         mgr := (mgr c)\<lparr> browserStarting := (browserStarting (mgr c))(?b := None) \<rparr> \<rparr>"
      by (simp add: launchSettles_def Let_def)
    then show ?thesis by (intro exI[of _ "Rejected e"]) simp
  qed
  then obtain st where st: "st \<noteq> Pending" and l': "launches c' = (launches c)[p := (?b, st)]"
    and m': "browserStarting (mgr c') = (browserStarting (mgr c))(?b := None)"
    by blast
  have held: "browserStarting (mgr c) ?b = Some p"
    using assms(1) p pend by (simp add: launch_guarded_def)
  show ?thesis
    unfolding launch_guarded_def
  proof (intro allI impI)
    fix q
    assume q: "q < length (launches c')" and qp: "snd (launches c' ! q) = Pending"
    then have neq: "q \<noteq> p" using st l' p by (cases "q = p") simp_all
    then have same: "launches c' ! q = launches c ! q" by (simp add: l')
    with q qp l' have g: "browserStarting (mgr c) (fst (launches c ! q)) = Some q"
      using assms(1) by (simp add: launch_guarded_def)
    with held neq have "fst (launches c ! q) \<noteq> ?b" by auto
    with g same show "browserStarting (mgr c') (fst (launches c' ! q)) = Some q"
      by (simp add: m')
  qed
qed

lemma launches_frame:
  "callGetOrCreateSharedContext t b c = Some c' \<Longrightarrow>
     launches c' = launches (snd (startBrowser b c)) \<and> browserStarting (mgr c') = browserStarting (mgr (snd (startBrowser b c)))
     \<or> launches c' = launches c \<and> browserStarting (mgr c') = browserStarting (mgr c)"
  "resume t c = Some c' \<Longrightarrow> launches c' = launches c \<and> browserStarting (mgr c') = browserStarting (mgr c)"
  "contextSettles p outcome c = Some c' \<Longrightarrow>
     launches c' = launches c \<and> browserStarting (mgr c') = browserStarting (mgr c)"
    apply (auto simp: callGetOrCreateSharedContext_def split: if_splits option.splits prod.splits)[1]
   apply (auto simp: resume_def createSharedContext_def
            split: option.splits call_state.splits browser_promise.splits settle.splits if_splits)[1]
  apply (auto simp: contextSettles_def Let_def split: option.splits if_splits)[1]
  done

lemma launch_guarded_cong:
  "launch_guarded c \<Longrightarrow> launches c' = launches c \<Longrightarrow>
   browserStarting (mgr c') = browserStarting (mgr c) \<Longrightarrow> launch_guarded c'"
  by (simp add: launch_guarded_def)

lemma launch_guarded_step:
  assumes "launch_guarded c" and "loop_step ev c = Some c'"
  shows "launch_guarded c'"
proof (cases ev)
  case (CallStartBrowser b)
  with assms show ?thesis using launch_guarded_startBrowser[of c b] by auto
next
  case (CallGetOrCreateSharedContext t b)
  with assms(2) have "callGetOrCreateSharedContext t b c = Some c'" by simp
  from launches_frame(1)[OF this] show ?thesis
    using launch_guarded_cong[of "snd (startBrowser b c)" c'] launch_guarded_cong[of c c']
      launch_guarded_startBrowser[OF assms(1), of b] assms(1) by auto
next
  case (LaunchSettles p outcome)
  with assms show ?thesis using launch_guarded_launchSettles by auto
next
  case (ContextSettles p outcome)
  with assms(2) have "contextSettles p outcome c = Some c'" by simp
  from launches_frame(3)[OF this] assms(1) show ?thesis
    using launch_guarded_cong by blast
next
  case (Resume t)
  with assms(2) have "resume t c = Some c'" by simp
  from launches_frame(2)[OF this] assms(1) show ?thesis
    using launch_guarded_cong by blast
qed

lemma launch_guarded_run:
  "launch_guarded c \<Longrightarrow> loop_run evs c = Some c' \<Longrightarrow> launch_guarded c'"
proof (induction evs arbitrary: c)
  case Nil
  then show ?case by simp
next
  case (Cons ev evs)
  then obtain c1 where s: "loop_step ev c = Some c1" and r: "loop_run evs c1 = Some c'"
    by (auto split: option.splits)
  from Cons.IH[OF launch_guarded_step[OF Cons.prems(1) s] r] show ?case .
qed

text \<open>
  \<^verbatim>\<open>startBrowser\<close> sets its guard before any \<^verbatim>\<open>await\<close>: whatever happens on the event
  loop, no two launches for the same browser id are pending together.
\<close>

lemma startBrowser_single_flight:
  assumes "loop_run evs new_config = Some c"
  shows "single_flight (launches c)"
proof -
  have "launch_guarded new_config" by (simp add: launch_guarded_def new_config_def)
  from launch_guarded_run[OF this assms] have g: "launch_guarded c" .
  show ?thesis
    unfolding single_flight_def
  proof (intro allI impI)
    fix p q
    assume p: "p < length (launches c)" and q: "q < length (launches c)"
      and same: "fst (launches c ! p) = fst (launches c ! q) \<and> snd (launches c ! p) = Pending
             \<and> snd (launches c ! q) = Pending"
    from g p same have "browserStarting (mgr c) (fst (launches c ! p)) = Some p"
      unfolding launch_guarded_def by blast
    moreover from g q same have "browserStarting (mgr c) (fst (launches c ! q)) = Some q"
      unfolding launch_guarded_def by blast
    ultimately show "p = q" using same by (metis option.inject)
  qed
qed

lemma not_single_flight_pair: "\<not> single_flight [(b, Pending), (b, Pending)]"
proof
  assume sf: "single_flight [(b, Pending), (b, Pending)]"
  from sf[unfolded single_flight_def, rule_format, of 0 1] show False by simp
qed

text \<open>
  C1 fails for \<^verbatim>\<open>getOrCreateSharedContext\<close>: it tests \<^verbatim>\<open>contextCreating\<close>, then awaits
  \<^verbatim>\<open>startBrowser\<close>, and only afterwards stores its promise. Two requesters for
  \<open>browser-0\<close> that both call before either continues share the one browser launch, and
  then each calls \<^verbatim>\<open>browser.newContext()\<close>: two context creations for the same key are
  pending at the same time.
\<close>

theorem shared_context_created_twice:
  "map_option contextCalls (loop_run two_requesters new_config)
     = Some [(''browser-0'', Pending), (''browser-0'', Pending)]
   \<and> map_option launches (loop_run two_requesters new_config) = Some [(''browser-0'', Resolved)]"
  by (simp add: sf_eval)

lemma shared_context_not_single_flight:
  "\<exists>c. loop_run two_requesters new_config = Some c \<and> \<not> single_flight (contextCalls c)"
  by (simp add: sf_eval not_single_flight_pair)

section \<open>Properties of the batch scheduler\<close>

lemma tracked_mono:
  "tracked m sid \<Longrightarrow> tracked (registerSession sid' idx now m) sid"
  "tracked m sid \<Longrightarrow> tracked (startSession sid' now m) sid"
  "tracked m sid \<Longrightarrow> tracked (completeSession sid' ok res now m) sid"
  "tracked m sid \<Longrightarrow> tracked (snd (recordError sid' st e now m)) sid"
  by (auto simp: tracked_def monitor_defs Let_def split: option.splits if_splits)

lemma tracked_after_register: "tracked (registerSession sid idx now m) sid"
  by (simp add: tracked_def registerSession_def)

lemma recordError_thrown:
  "tracked m sid \<Longrightarrow>
   fst (recordError sid st e now m) = (if err_message e = [] then Some typeError_toLowerCase else None)"
  by (auto simp: tracked_def recordError_def Let_def split: option.splits)

lemma beginSession_fields [simp]:
  "isRunning (beginSession w i ex) = isRunning ex"
  "results (beginSession w i ex) = results ex"
  "ex_completed (beginSession w i ex) = ex_completed ex"
  "promises (beginSession w i ex) = promises ex"
  "waves (beginSession w i ex) = waves ex"
  "trace (beginSession w i ex) = trace ex @ [Started i]"
  by (simp_all add: beginSession_def)

lemma finishSession_fields [simp]:
  "isRunning (finishSession w i ex) = isRunning ex"
  "results (finishSession w i ex) = results ex"
  "ex_completed (finishSession w i ex) = ex_completed ex"
  "waves (finishSession w i ex) = waves ex"
  "trace (finishSession w i ex) = trace ex @ [Settled i]"
  by (simp_all add: finishSession_def split: run_outcome.splits prod.splits)

lemma beginSession_tracked:
  "tracked (ex_monitor (beginSession w i ex)) (session_id i)"
  "tracked (ex_monitor ex) sid \<Longrightarrow> tracked (ex_monitor (beginSession w i ex)) sid"
  by (simp_all add: beginSession_def tracked_mono tracked_after_register)

lemma finishSession_tracked:
  assumes "tracked (ex_monitor ex) sid"
  shows "tracked (ex_monitor (finishSession w i ex)) sid"
proof (cases "session_run w i")
  case (Returns r)
  with assms show ?thesis by (simp add: finishSession_def tracked_mono)
next
  case (Throws e)
  have "tracked (snd (recordError (session_id i) ''session-execution'' e (finishAt w i)
          (completeSession (session_id i) False None (finishAt w i) (ex_monitor ex)))) sid"
    by (intro tracked_mono assms)
  with Throws show ?thesis by (auto simp: finishSession_def split: prod.splits)
qed

lemma finishSession_promise:
  assumes "tracked (ex_monitor ex) (session_id i)"
  shows "promises (finishSession w i ex) = (promises ex)(i \<mapsto> settled_value w i)"
proof (cases "session_run w i")
  case (Returns r)
  then show ?thesis by (simp add: finishSession_def settled_value_def)
next
  case (Throws e)
  have reg: "tracked (completeSession (session_id i) False None (finishAt w i) (ex_monitor ex))
               (session_id i)"
    by (intro tracked_mono assms)
  from recordError_thrown[OF reg, of "''session-execution''" e "finishAt w i"] Throws
  show ?thesis
    by (auto simp: finishSession_def settled_value_def split: prod.splits)
qed

lemma fold_beginSession:
  "isRunning (fold (beginSession w) is ex) = isRunning ex"
  "results (fold (beginSession w) is ex) = results ex"
  "ex_completed (fold (beginSession w) is ex) = ex_completed ex"
  "promises (fold (beginSession w) is ex) = promises ex"
  "waves (fold (beginSession w) is ex) = waves ex"
  "trace (fold (beginSession w) is ex) = trace ex @ map Started is"
  by (induction "is" arbitrary: ex) simp_all

lemma fold_beginSession_keeps:
  "tracked (ex_monitor ex) sid \<Longrightarrow> tracked (ex_monitor (fold (beginSession w) is ex)) sid"
  by (induction "is" arbitrary: ex) (simp_all add: beginSession_tracked)

lemma fold_beginSession_tracked:
  "i \<in> set is \<Longrightarrow> tracked (ex_monitor (fold (beginSession w) is ex)) (session_id i)"
proof (induction "is" arbitrary: ex)
  case Nil
  then show ?case by simp
next
  case (Cons j js)
  show ?case
  proof (cases "i = j")
    case True
    then show ?thesis
      by (simp add: fold_beginSession_keeps beginSession_tracked)
  next
    case False
    with Cons show ?thesis by simp
  qed
qed

lemma fold_finishSession:
  "isRunning (fold (finishSession w) is ex) = isRunning ex"
  "results (fold (finishSession w) is ex) = results ex"
  "ex_completed (fold (finishSession w) is ex) = ex_completed ex"
  "waves (fold (finishSession w) is ex) = waves ex"
  "trace (fold (finishSession w) is ex) = trace ex @ map Settled is"
  by (induction "is" arbitrary: ex) simp_all

lemma fold_finishSession_keeps:
  "tracked (ex_monitor ex) sid \<Longrightarrow> tracked (ex_monitor (fold (finishSession w) is ex)) sid"
  by (induction "is" arbitrary: ex) (simp_all add: finishSession_tracked)

lemma fold_finishSession_promises:
  assumes "\<forall>i \<in> set is. tracked (ex_monitor ex) (session_id i)"
  shows "\<forall>i \<in> set is. promises (fold (finishSession w) is ex) i = Some (settled_value w i)"
  using assms
proof (induction "is" arbitrary: ex rule: rev_induct)
  case Nil
  then show ?case by simp
next
  case (snoc j js)
  let ?ex' = "fold (finishSession w) js ex"
  have regj: "tracked (ex_monitor ?ex') (session_id j)"
    using snoc.prems by (intro fold_finishSession_keeps) simp
  have IH: "\<forall>i \<in> set js. promises ?ex' i = Some (settled_value w i)"
    using snoc.IH snoc.prems by simp
  show ?case
    using IH by (auto simp: finishSession_promise[OF regj])
qed

lemma collect_settled: "collect i (settled_value w i) = expected_entry w i"
  by (simp add: collect_def settled_value_def expected_entry_def typeError_toLowerCase_def
        split: run_outcome.splits)

lemma started_append: "started (xs @ ys) = started xs @ started ys"
  by (induction xs rule: started.induct) simp_all

lemma started_maps [simp]: "started (map Started is) = is" "started (map Settled is) = []"
  by (induction "is") simp_all

lemma in_flight_append: "in_flight S (xs @ ys) = in_flight (in_flight S xs) ys"
  by (induction S xs rule: in_flight.induct) simp_all

lemma in_flight_maps [simp]:
  "in_flight S (map Started is) = S \<union> set is" "in_flight S (map Settled is) = S - set is"
  by (induction "is" arbitrary: S) auto

lemma barrier_settles [simp]: "barrier S b (map Settled is)"
  by (induction "is" arbitrary: S b) simp_all

lemma barrier_block: "(b \<longrightarrow> S = {}) \<Longrightarrow> barrier S b (map Started is @ map Settled js)"
  by (induction "is" arbitrary: S b) simp_all

lemma barrier_extend:
  "barrier S b tr \<Longrightarrow> in_flight S tr = {} \<Longrightarrow> (\<And>b'. barrier {} b' blk) \<Longrightarrow> barrier S b (tr @ blk)"
  by (induction S b tr rule: barrier.induct) simp_all

lemma finishSession_others:
  "j \<noteq> i \<Longrightarrow> promises (finishSession w i ex) j = promises ex j"
  by (simp add: finishSession_def split: run_outcome.splits prod.splits)

lemma fold_finishSession_others:
  "j \<notin> set is \<Longrightarrow> promises (fold (finishSession w) is ex) j = promises ex j"
  by (induction "is" arbitrary: ex) (simp_all add: finishSession_others)

lemma run_wave_fields:
  fixes w count batchSize ex
  defines "batch \<equiv> [ex_completed ex ..< min (ex_completed ex + batchSize) count]"
  shows "ex_completed (run_wave w count batchSize ex) = min (ex_completed ex + batchSize) count"
    and "waves (run_wave w count batchSize ex) = waves ex @ [length batch]"
    and "trace (run_wave w count batchSize ex)
           = trace ex @ map Started batch @ map Settled (sort_key (finishAt w) batch)"
    and "isRunning (run_wave w count batchSize ex)
           = (isRunning ex \<and> \<not> stopDuring w (length (waves ex)))"
    and "results (run_wave w count batchSize ex) = results ex @ map (expected_entry w) batch"
    and "promises (run_wave w count batchSize ex) i
           = (if i \<in> set batch then Some (settled_value w i) else promises ex i)"
proof -
  let ?ex1 = "fold (beginSession w) batch ex"
  let ?order = "sort_key (finishAt w) batch"
  let ?ex2 = "fold (finishSession w) ?order ?ex1"
  show "ex_completed (run_wave w count batchSize ex) = min (ex_completed ex + batchSize) count"
    by (simp add: run_wave_def Let_def stop_def)
  show "waves (run_wave w count batchSize ex) = waves ex @ [length batch]"
    by (simp add: run_wave_def Let_def stop_def batch_def fold_beginSession fold_finishSession)
  show "trace (run_wave w count batchSize ex) = trace ex @ map Started batch @ map Settled ?order"
    by (simp add: run_wave_def Let_def stop_def batch_def fold_beginSession fold_finishSession)
  show "isRunning (run_wave w count batchSize ex)
           = (isRunning ex \<and> \<not> stopDuring w (length (waves ex)))"
    by (simp add: run_wave_def Let_def stop_def fold_beginSession fold_finishSession)
  have "\<forall>i \<in> set ?order. tracked (ex_monitor ?ex1) (session_id i)"
    by (simp add: fold_beginSession_tracked)
  then have settled: "\<forall>i \<in> set ?order. promises ?ex2 i = Some (settled_value w i)"
    by (rule fold_finishSession_promises)
  have "promises ?ex2 i = (if i \<in> set batch then Some (settled_value w i) else promises ex i)"
    using settled by (simp add: fold_finishSession_others fold_beginSession)
  then show "promises (run_wave w count batchSize ex) i
           = (if i \<in> set batch then Some (settled_value w i) else promises ex i)"
    by (simp add: run_wave_def Let_def stop_def batch_def)
  from settled have "map (\<lambda>i. collect i (the (promises ?ex2 i))) batch = map (expected_entry w) batch"
    by (simp add: collect_settled)
  then show "results (run_wave w count batchSize ex) = results ex @ map (expected_entry w) batch"
    by (simp add: run_wave_def Let_def stop_def batch_def fold_beginSession fold_finishSession)
qed

lemma wave_trace_append:
  "wave_trace w first (ns @ [n]) =
     wave_trace w first ns
     @ map Started [first + sum_list ns ..< first + sum_list ns + n]
     @ map Settled (sort_key (finishAt w) [first + sum_list ns ..< first + sum_list ns + n])"
  by (induction ns arbitrary: first) (simp_all add: add.assoc)

lemma wave_inv_run_wave:
  assumes inv: "wave_inv w count batchSize ex" and more: "ex_completed ex < count"
    and run: "isRunning ex"
  shows "wave_inv w count batchSize (run_wave w count batchSize ex)"
proof -
  let ?c = "ex_completed ex"
  let ?n = "length (waves ex)"
  let ?e = "min (?c + batchSize) count"
  let ?batch = "[?c ..< ?e]"
  let ?ex' = "run_wave w count batchSize ex"
  note f = run_wave_fields[of w count batchSize ex]
  from inv[unfolded wave_inv_def]
  have c1: "?c = min (?n * batchSize) count" and c2: "?c = sum_list (waves ex)"
    and ws: "\<forall>k < ?n. waves ex ! k = min batchSize (count - sum_list (take k (waves ex)))
                       \<and> k * batchSize < count \<and> sum_list (take k (waves ex)) < count"
    and pr: "\<forall>i < ?c. promises ex i = Some (settled_value w i)"
    and rs: "results ex = map (expected_entry w) [0..<?c]"
    and st: "started (trace ex) = [0..<?c]"
    and tr: "trace ex = wave_trace w 0 (waves ex)"
    and fl: "in_flight {} (trace ex) = {}"
    and br: "barrier {} True (trace ex)"
    and ir: "isRunning ex \<longleftrightarrow> (\<forall>k < ?n. \<not> stopDuring w k)"
    by blast+
  from c1 more have cn: "?c = ?n * batchSize" by simp
  have len: "length ?batch = min batchSize (count - ?c)" using more by simp
  have le: "?c \<le> ?e" using more by simp
  have split: "[0..<?e] = [0..<?c] @ ?batch"
    using le upt_add_eq_append[of 0 ?c "?e - ?c"] by simp
  have i1: "ex_completed ?ex' = min (length (waves ?ex') * batchSize) count"
    by (simp add: f cn)
  have i2: "ex_completed ?ex' = sum_list (waves ?ex')"
    using le c2 by (simp add: f)
  have i3: "\<forall>k < length (waves ?ex').
         waves ?ex' ! k = min batchSize (count - sum_list (take k (waves ?ex')))
         \<and> k * batchSize < count \<and> sum_list (take k (waves ?ex')) < count"
  proof (intro allI impI)
    fix k assume k: "k < length (waves ?ex')"
    show "waves ?ex' ! k = min batchSize (count - sum_list (take k (waves ?ex')))
         \<and> k * batchSize < count \<and> sum_list (take k (waves ?ex')) < count"
    proof (cases "k < ?n")
      case True
      then show ?thesis using ws by (simp add: f nth_append)
    next
      case False
      with k have kn: "k = ?n" by (simp add: f)
      then show ?thesis using more cn c2 by (simp add: f nth_append)
    qed
  qed
  have i4: "\<forall>k. Suc k < length (waves ?ex') \<longrightarrow> \<not> stopDuring w k"
    using ir run by (simp add: f)
  have i11: "\<forall>i < ex_completed ?ex'. promises ?ex' i = Some (settled_value w i)"
    using pr by (auto simp: f)
  have i5: "results ?ex' = map (expected_entry w) [0..<ex_completed ?ex']"
    using split by (simp add: f rs)
  have i6: "started (trace ?ex') = [0..<ex_completed ?ex']"
    using split by (simp add: f st started_append)
  have i7: "trace ?ex' = wave_trace w 0 (waves ?ex')"
  proof -
    have "?c + length ?batch = ?e" using le by simp
    then show ?thesis
      by (simp add: f(2,3) tr wave_trace_append c2 [symmetric] del: length_upt)
  qed
  have i8: "in_flight {} (trace ?ex') = {}"
    by (simp add: f in_flight_append fl)
  have i9: "barrier {} True (trace ?ex')"
    unfolding f by (rule barrier_extend[OF br fl]) (rule barrier_block, simp)
  have i10: "isRunning ?ex' \<longleftrightarrow> (\<forall>k < length (waves ?ex'). \<not> stopDuring w k)"
    using ir by (auto simp: f less_Suc_eq)
  from i1 i2 i3 i4 i5 i6 i7 i8 i9 i10 i11 show ?thesis
    unfolding wave_inv_def by blast
qed

lemma wave_inv_start: "wave_inv w count batchSize (executeMulti_start ex)"
  by (simp add: wave_inv_def executeMulti_start_def)

lemma wave_inv_loop:
  "wave_inv w count batchSize ex \<Longrightarrow> wave_inv w count batchSize (waves_loop w count batchSize fuel ex)"
  by (induction fuel arbitrary: ex) (simp_all add: wave_inv_run_wave)

lemma waves_loop_done:
  "\<not> (ex_completed ex < count \<and> isRunning ex) \<Longrightarrow> waves_loop w count batchSize fuel ex = ex"
  by (cases fuel) auto

lemma waves_loop_ends:
  assumes "0 < batchSize \<or> count = 0"
  shows "count \<le> fuel + ex_completed ex \<Longrightarrow>
         \<not> (ex_completed (waves_loop w count batchSize fuel ex) < count
            \<and> isRunning (waves_loop w count batchSize fuel ex))"
proof (induction fuel arbitrary: ex)
  case 0
  then show ?case by simp
next
  case (Suc fuel)
  show ?case
  proof (cases "ex_completed ex < count \<and> isRunning ex")
    case False
    then show ?thesis by auto
  next
    case True
    with assms have "0 < batchSize" by auto
    with True Suc.prems
    have "count \<le> fuel + ex_completed (run_wave w count batchSize ex)"
      by (simp add: run_wave_fields(1))
    from Suc.IH[OF this] True show ?thesis by simp
  qed
qed

lemma waves_loop_stops:
  "stopDuring w k \<Longrightarrow> length (waves ex) \<le> k \<Longrightarrow> k < fuel + length (waves ex) \<Longrightarrow>
   \<not> (ex_completed (waves_loop w count batchSize fuel ex) < count
      \<and> isRunning (waves_loop w count batchSize fuel ex))"
proof (induction fuel arbitrary: ex)
  case 0
  then show ?case by simp
next
  case (Suc fuel)
  let ?ex' = "run_wave w count batchSize ex"
  show ?case
  proof (cases "ex_completed ex < count \<and> isRunning ex")
    case False
    then show ?thesis by auto
  next
    case True
    show ?thesis
    proof (cases "length (waves ex) = k")
      case True
      with Suc.prems have "\<not> isRunning ?ex'" by (simp add: run_wave_fields(4))
      then have "waves_loop w count batchSize fuel ?ex' = ?ex'" by (simp add: waves_loop_done)
      with \<open>\<not> isRunning ?ex'\<close> \<open>ex_completed ex < count \<and> isRunning ex\<close> show ?thesis by simp
    next
      case False
      with Suc.prems have "length (waves ?ex') \<le> k" "k < fuel + length (waves ?ex')"
        by (simp_all add: run_wave_fields(2))
      from Suc.IH[OF Suc.prems(1) this] True show ?thesis by simp
    qed
  qed
qed

lemma same_schedule_run_wave:
  assumes "stopDuring w' = stopDuring w" "waves ex2 = waves ex"
    "ex_completed ex2 = ex_completed ex" "isRunning ex2 = isRunning ex"
  shows "waves (run_wave w' count batchSize ex2) = waves (run_wave w count batchSize ex)"
    and "ex_completed (run_wave w' count batchSize ex2) = ex_completed (run_wave w count batchSize ex)"
    and "isRunning (run_wave w' count batchSize ex2) = isRunning (run_wave w count batchSize ex)"
  using assms by (simp_all add: run_wave_fields(1,2,4))

lemma same_schedule_loop:
  assumes "stopDuring w' = stopDuring w"
  shows "waves ex2 = waves ex \<Longrightarrow> ex_completed ex2 = ex_completed ex \<Longrightarrow> isRunning ex2 = isRunning ex \<Longrightarrow>
         waves (waves_loop w' count batchSize fuel ex2) = waves (waves_loop w count batchSize fuel ex)"
proof (induction fuel arbitrary: ex ex2)
  case 0
  then show ?case by simp
next
  case (Suc fuel)
  from same_schedule_run_wave[OF assms Suc.prems] Suc.IH Suc.prems
  show ?case by simp
qed

lemma wave_sizes_unique:
  assumes "0 < concurrency"
  shows "\<forall>k < length ws. ws ! k = min concurrency (remaining - sum_list (take k ws))
                            \<and> sum_list (take k ws) < remaining \<Longrightarrow>
         sum_list ws = remaining \<Longrightarrow> ws = wave_sizes concurrency remaining"
proof (induction ws arbitrary: remaining)
  case Nil
  then show ?case by (simp add: wave_sizes.simps)
next
  case (Cons x xs)
  from Cons.prems(1)[rule_format, of 0] have x: "x = min concurrency remaining" and pos: "0 < remaining"
    by simp_all
  have rest: "\<forall>k < length xs. xs ! k = min concurrency (remaining - x - sum_list (take k xs))
                            \<and> sum_list (take k xs) < remaining - x"
  proof (intro allI impI)
    fix k assume "k < length xs"
    with Cons.prems(1)[rule_format, of "Suc k"]
    show "xs ! k = min concurrency (remaining - x - sum_list (take k xs))
                            \<and> sum_list (take k xs) < remaining - x"
      by (simp add: diff_diff_left less_diff_conv add.commute)
  qed
  from Cons.prems(2) have "sum_list xs = remaining - x" by simp
  from Cons.IH[OF rest this] have "xs = wave_sizes concurrency (remaining - x)" .
  with x pos assms show ?case
    by (subst wave_sizes.simps) simp
qed

lemma min_batch: "min (min concurrency count) (count - s) = min concurrency (count - (s::nat))"
  by simp

lemma reaches_wave: "(k * min concurrency count < count) = (k * concurrency < (count::nat))"
proof (cases "concurrency \<le> count")
  case True
  then show ?thesis by (simp add: min_absorb1)
next
  case False
  then have big: "count < concurrency" by simp
  show ?thesis
  proof (cases k)
    case 0
    then show ?thesis by simp
  next
    case (Suc j)
    have "count \<le> Suc j * count" by simp
    moreover have "count < Suc j * concurrency" using big by (simp add: trans_less_add1)
    ultimately show ?thesis using Suc big by (simp add: min_absorb2)
  qed
qed

lemma started_in_waves: "min (Suc k * min concurrency count) count = min (Suc k * concurrency) (count::nat)"
proof (cases "concurrency \<le> count")
  case True
  then show ?thesis by (simp add: min_absorb1)
next
  case False
  then have big: "count < concurrency" by simp
  then have "count < Suc k * concurrency" by (simp add: trans_less_add1)
  then show ?thesis using big by (simp add: min_absorb2)
qed

lemma createSummary_total: "sum_total (createSummary rs) = length rs"
  by (simp add: createSummary_def Let_def)

lemma scenario_A_sizes: "wave_sizes 3 10 = [3, 3, 3, 1]"
  by (simp add: wave_sizes.simps)

lemma loop_inv:
  "wave_inv w count (min concurrency count)
     (waves_loop w count (min concurrency count) fuel (executeMulti_start ex))"
  by (rule wave_inv_loop[OF wave_inv_start])

lemma executeMulti_ended:
  assumes "L = waves_loop w count (min concurrency count) fuel (executeMulti_start ex)"
    and "\<not> (ex_completed L < count \<and> isRunning L)"
  shows "executeMulti w count concurrency fuel ex =
           Some (\<lparr> mr_success = list_all entry_success (results L),
                   mr_results = results L,
                   mr_summary = createSummary (results L) \<rparr>,
                 L\<lparr> isRunning := False, ex_sessions := {} \<rparr>)"
  using assms by (simp add: executeMulti_def Let_def)

lemma run_ends:
  assumes "0 < concurrency" "count \<le> fuel"
    and "L = waves_loop w count (min concurrency count) fuel (executeMulti_start ex)"
  shows "\<not> (ex_completed L < count \<and> isRunning L)"
proof -
  from assms(1) have "0 < min concurrency count \<or> count = 0" by auto
  from waves_loop_ends[OF this, of fuel "executeMulti_start ex" w] assms(2,3)
  show ?thesis by simp
qed

lemma full_run_state:
  assumes "0 < concurrency" "\<forall>k. \<not> stopDuring w k" "count \<le> fuel"
    and L: "L = waves_loop w count (min concurrency count) fuel (executeMulti_start ex)"
  shows "ex_completed L = count" and "waves L = wave_sizes concurrency count"
proof -
  have inv: "wave_inv w count (min concurrency count) L" unfolding L by (rule loop_inv)
  from inv[unfolded wave_inv_def]
  have c1: "ex_completed L = min (length (waves L) * min concurrency count) count"
    and c2: "ex_completed L = sum_list (waves L)"
    and ws: "\<forall>k < length (waves L).
               waves L ! k = min (min concurrency count) (count - sum_list (take k (waves L)))
             \<and> k * min concurrency count < count \<and> sum_list (take k (waves L)) < count"
    and ir: "isRunning L \<longleftrightarrow> (\<forall>k < length (waves L). \<not> stopDuring w k)"
    by blast+
  from ir assms(2) have "isRunning L" by simp
  with run_ends[OF assms(1,3) L] have "\<not> ex_completed L < count" by simp
  moreover from c1 have "ex_completed L \<le> count" by simp
  ultimately show fin: "ex_completed L = count" by simp
  from ws have "\<forall>k < length (waves L).
               waves L ! k = min concurrency (count - sum_list (take k (waves L)))
             \<and> sum_list (take k (waves L)) < count"
    by (simp add: min_batch)
  from wave_sizes_unique[OF assms(1) this] c2 fin
  show "waves L = wave_sizes concurrency count" by simp
qed

lemma stopped_run_state:
  assumes stop: "stopDuring w k" and first: "\<forall>j < k. \<not> stopDuring w j"
    and reach: "k * concurrency < count" and fuel: "k < fuel"
    and L: "L = waves_loop w count (min concurrency count) fuel (executeMulti_start ex)"
  shows "\<not> (ex_completed L < count \<and> isRunning L)"
    and "length (waves L) = Suc k"
    and "ex_completed L = min (Suc k * concurrency) count"
proof -
  have inv: "wave_inv w count (min concurrency count) L" unfolding L by (rule loop_inv)
  from inv[unfolded wave_inv_def]
  have c1: "ex_completed L = min (length (waves L) * min concurrency count) count"
    and ws: "\<forall>j < length (waves L). j * min concurrency count < count"
    and earlier: "\<forall>j. Suc j < length (waves L) \<longrightarrow> \<not> stopDuring w j"
    and ir: "isRunning L \<longleftrightarrow> (\<forall>j < length (waves L). \<not> stopDuring w j)"
    by blast+
  from waves_loop_stops[OF stop, of "executeMulti_start ex" fuel count "min concurrency count"] fuel
  show ended: "\<not> (ex_completed L < count \<and> isRunning L)"
    by (simp add: L executeMulti_start_def)
  from reach have reach': "k * min concurrency count < count" by (simp add: reaches_wave)
  have stopped: "\<not> isRunning L"
  proof
    assume run: "isRunning L"
    with ir stop have "length (waves L) \<le> k" by (meson not_le_imp_less)
    then have "length (waves L) * min concurrency count \<le> k * min concurrency count"
      by (rule mult_le_mono1)
    with reach' have "length (waves L) * min concurrency count < count"
      by (rule le_less_trans[rotated])
    with c1 have "ex_completed L < count" by simp
    with ended run show False by simp
  qed
  with ir obtain j where j: "j < length (waves L)" "stopDuring w j" by auto
  with earlier have last: "length (waves L) = Suc j"
    by (metis Suc_lessI)
  from first j(2) have "k \<le> j" by (meson not_le_imp_less)
  moreover from earlier stop have "\<not> Suc k < length (waves L)" by auto
  ultimately show len: "length (waves L) = Suc k" using last by simp
  from c1 len show "ex_completed L = min (Suc k * concurrency) count"
    by (simp only: started_in_waves)
qed

lemma full_run:
  assumes "0 < concurrency" "\<forall>k. \<not> stopDuring w k" "count \<le> fuel"
  shows "\<exists>r ex'. executeMulti w count concurrency fuel ex = Some (r, ex')
           \<and> waves ex' = wave_sizes concurrency count
           \<and> trace ex' = wave_trace w 0 (waves ex')
           \<and> mr_results r = map (expected_entry w) [0..<count]
           \<and> sum_total (mr_summary r) = count"
proof -
  let ?L = "waves_loop w count (min concurrency count) fuel (executeMulti_start ex)"
  have inv: "wave_inv w count (min concurrency count) ?L" by (rule loop_inv)
  from inv[unfolded wave_inv_def]
  have rs: "results ?L = map (expected_entry w) [0..<ex_completed ?L]"
    and tr: "trace ?L = wave_trace w 0 (waves ?L)"
    by blast+
  note st = full_run_state[OF assms refl, of ex]
  note em = executeMulti_ended[OF refl run_ends[OF assms(1,3) refl], of w ex]
  from rs st(1) have rs': "results ?L = map (expected_entry w) [0..<count]" by simp
  show ?thesis
    unfolding em using tr by (simp add: createSummary_total st(2) rs')
qed

text \<open>
  C4. For every count \<open>N\<close> and concurrency \<open>P\<close>, after any number of iterations of the
  loop: wave \<open>k\<close> has \<open>min(P, remaining)\<close> sessions, where \<open>remaining\<close> is \<open>N\<close> less the sizes of
  the waves before it; the trace is, wave by wave, the starts of all sessions of the wave
  followed by the settlement of each of them; and no session starts while a session of an
  earlier wave is in flight. With \<open>P > 0\<close> and no stop request the run returns, its waves are
  the sizes \<open>min(P, remaining)\<close> down to nothing remaining, and the summary's total is \<open>N\<close>.
  For \<open>N = 10\<close>, \<open>P = 3\<close> the waves are \<open>[3, 3, 3, 1]\<close> and the total is 10.
\<close>

theorem wave_schedule:
  "(let ex' = waves_loop w N (min P N) fuel (executeMulti_start ex) in
      (\<forall>k < length (waves ex'). waves ex' ! k = min P (N - sum_list (take k (waves ex'))))
    \<and> trace ex' = wave_trace w 0 (waves ex')
    \<and> barrier {} True (trace ex'))
   \<and> (0 < P \<and> (\<forall>k. \<not> stopDuring w k) \<and> N \<le> fuel \<longrightarrow>
        (\<exists>r ex'. executeMulti w N P fuel ex = Some (r, ex')
               \<and> waves ex' = wave_sizes P N
               \<and> trace ex' = wave_trace w 0 (waves ex')
               \<and> sum_total (mr_summary r) = N))
   \<and> ((\<forall>k. \<not> stopDuring w k) \<and> 10 \<le> fuel \<longrightarrow>
        (\<exists>r ex'. executeMulti w 10 3 fuel ex = Some (r, ex')
               \<and> waves ex' = [3, 3, 3, 1]
               \<and> sum_total (mr_summary r) = 10))"
proof -
  let ?L = "waves_loop w N (min P N) fuel (executeMulti_start ex)"
  have inv: "wave_inv w N (min P N) ?L" by (rule loop_inv)
  from inv[unfolded wave_inv_def]
  have ws: "\<forall>k < length (waves ?L).
               waves ?L ! k = min (min P N) (N - sum_list (take k (waves ?L)))
             \<and> k * min P N < N \<and> sum_list (take k (waves ?L)) < N"
    and tr: "trace ?L = wave_trace w 0 (waves ?L)"
    and br: "barrier {} True (trace ?L)"
    by blast+
  from ws have "\<forall>k < length (waves ?L). waves ?L ! k = min P (N - sum_list (take k (waves ?L)))"
    by (simp add: min_batch)
  with tr br have p1: "let ex' = ?L in
      (\<forall>k < length (waves ex'). waves ex' ! k = min P (N - sum_list (take k (waves ex'))))
    \<and> trace ex' = wave_trace w 0 (waves ex')
    \<and> barrier {} True (trace ex')"
    unfolding Let_def by blast
  have p2: "0 < P \<and> (\<forall>k. \<not> stopDuring w k) \<and> N \<le> fuel \<longrightarrow>
        (\<exists>r ex'. executeMulti w N P fuel ex = Some (r, ex')
               \<and> waves ex' = wave_sizes P N
               \<and> trace ex' = wave_trace w 0 (waves ex')
               \<and> sum_total (mr_summary r) = N)"
  proof
    assume a: "0 < P \<and> (\<forall>k. \<not> stopDuring w k) \<and> N \<le> fuel"
    then have "0 < P" "\<forall>k. \<not> stopDuring w k" "N \<le> fuel" by blast+
    from full_run[OF this, of ex]
    show "\<exists>r ex'. executeMulti w N P fuel ex = Some (r, ex')
               \<and> waves ex' = wave_sizes P N
               \<and> trace ex' = wave_trace w 0 (waves ex')
               \<and> sum_total (mr_summary r) = N"
      by blast
  qed
  have p3: "(\<forall>k. \<not> stopDuring w k) \<and> 10 \<le> fuel \<longrightarrow>
        (\<exists>r ex'. executeMulti w 10 3 fuel ex = Some (r, ex')
               \<and> waves ex' = [3, 3, 3, 1]
               \<and> sum_total (mr_summary r) = 10)"
  proof
    assume a: "(\<forall>k. \<not> stopDuring w k) \<and> 10 \<le> fuel"
    then have b: "\<forall>k. \<not> stopDuring w k" "10 \<le> fuel" by blast+
    have "0 < (3::nat)" by simp
    from full_run[OF this b, of ex]
    show "\<exists>r ex'. executeMulti w 10 3 fuel ex = Some (r, ex')
               \<and> waves ex' = [3, 3, 3, 1]
               \<and> sum_total (mr_summary r) = 10"
      unfolding scenario_A_sizes by blast
  qed
  from p1 p2 p3 show ?thesis by blast
qed

theorem wave_schedule_witness:
  "\<exists>r ex'. executeMulti all_pass 10 3 10 new_executor = Some (r, ex')
         \<and> waves ex' = [3, 3, 3, 1]
         \<and> trace ex' =
             [Started 0, Started 1, Started 2, Settled 2, Settled 1, Settled 0,
              Started 3, Started 4, Started 5, Settled 5, Settled 4, Settled 3,
              Started 6, Started 7, Started 8, Settled 8, Settled 7, Settled 6,
              Started 9, Settled 9]
         \<and> sum_total (mr_summary r) = 10"
proof -
  have h: "0 < (3::nat) \<and> (\<forall>k. \<not> stopDuring all_pass k) \<and> (10::nat) \<le> 10"
    by (simp add: all_pass_def)
  from wave_schedule[of all_pass 10 3 10 new_executor, THEN conjunct2, THEN conjunct1] h
  obtain r ex' where run: "executeMulti all_pass 10 3 10 new_executor = Some (r, ex')"
    and sizes: "waves ex' = wave_sizes 3 10"
    and events: "trace ex' = wave_trace all_pass 0 (waves ex')"
    and total: "sum_total (mr_summary r) = 10"
    by blast
  have "wave_trace all_pass 0 [3, 3, 3, 1] =
             [Started 0, Started 1, Started 2, Settled 2, Settled 1, Settled 0,
              Started 3, Started 4, Started 5, Settled 5, Settled 4, Settled 3,
              Started 6, Started 7, Started 8, Settled 8, Settled 7, Settled 6,
              Started 9, Settled 9]"
    by (simp add: all_pass_def upt_rec)
  with run sizes events total show ?thesis
    unfolding scenario_A_sizes by simp
qed

text \<open>
  C6. With \<open>P > 0\<close> the run returns a result object whatever the sessions do. The entry
  of session \<open>i\<close> is the result that its \<^verbatim>\<open>run\<close> returned, or
  \<^verbatim>\<open>{ success: false, error, testIndex: i }\<close> with the message of the error its promise was
  rejected with: the error that \<^verbatim>\<open>run\<close> threw, or, when that error has no message, the
  \<^verbatim>\<open>TypeError\<close> raised by \<^verbatim>\<open>recordError\<close> in the catch block. In a second world \<open>w'\<close> with
  the same stop requests, where other sessions may fail or pass differently, the waves are
  the same, as many results are collected, and the entry of every session that behaves the
  same is the same. With no stop request all \<open>N\<close> sessions are collected.
\<close>

theorem failure_isolation:
  assumes "0 < P" "N \<le> fuel" "stopDuring w' = stopDuring w"
  shows "\<exists>r ex1 r' ex1'.
      executeMulti w N P fuel ex = Some (r, ex1)
    \<and> executeMulti w' N P fuel ex = Some (r', ex1')
    \<and> waves ex1' = waves ex1
    \<and> length (mr_results r') = length (mr_results r)
    \<and> length (mr_results r) = sum_list (waves ex1)
    \<and> (\<forall>i < length (mr_results r).
          mr_results r ! i =
            (case session_run w i of
               Returns res \<Rightarrow> SessionResult res
             | Throws e \<Rightarrow>
                 FailureEntry (if err_message e = [] then err_message typeError_toLowerCase
                               else err_message e) i)
        \<and> (case promises ex1 i of
             Some (Inr res) \<Rightarrow> mr_results r ! i = SessionResult res
           | Some (Inl reason) \<Rightarrow> mr_results r ! i = FailureEntry (err_message reason) i
           | None \<Rightarrow> False)
        \<and> (session_run w' i = session_run w i \<longrightarrow> mr_results r' ! i = mr_results r ! i))
    \<and> ((\<forall>k. \<not> stopDuring w k) \<longrightarrow> length (mr_results r) = N)"
proof -
  let ?L = "waves_loop w N (min P N) fuel (executeMulti_start ex)"
  let ?L' = "waves_loop w' N (min P N) fuel (executeMulti_start ex)"
  define r where "r = \<lparr> mr_success = list_all entry_success (results ?L),
                         mr_results = results ?L, mr_summary = createSummary (results ?L) \<rparr>"
  define r' where "r' = \<lparr> mr_success = list_all entry_success (results ?L'),
                         mr_results = results ?L', mr_summary = createSummary (results ?L') \<rparr>"
  define ex1 where "ex1 = ?L\<lparr> isRunning := False, ex_sessions := {} \<rparr>"
  define ex1' where "ex1' = ?L'\<lparr> isRunning := False, ex_sessions := {} \<rparr>"
  have sel: "mr_results r = results ?L" "mr_results r' = results ?L'"
    "waves ex1 = waves ?L" "waves ex1' = waves ?L'" "promises ex1 = promises ?L"
    by (simp_all add: r_def r'_def ex1_def ex1'_def)
  have inv: "wave_inv w N (min P N) ?L" by (rule loop_inv)
  have inv': "wave_inv w' N (min P N) ?L'" by (rule loop_inv)
  from inv[unfolded wave_inv_def]
  have c2: "ex_completed ?L = sum_list (waves ?L)"
    and pr: "\<forall>i < ex_completed ?L. promises ?L i = Some (settled_value w i)"
    and rs: "results ?L = map (expected_entry w) [0..<ex_completed ?L]"
    by blast+
  from inv'[unfolded wave_inv_def]
  have c2': "ex_completed ?L' = sum_list (waves ?L')"
    and rs': "results ?L' = map (expected_entry w') [0..<ex_completed ?L']"
    by blast+
  have same: "waves ?L' = waves ?L"
    by (rule same_schedule_loop[OF assms(3)]) simp_all
  with c2 c2' have same_c: "ex_completed ?L' = ex_completed ?L" by simp
  have len: "length (mr_results r) = ex_completed ?L" "length (mr_results r') = ex_completed ?L"
    by (simp_all add: sel rs rs' same_c)
  have g1: "executeMulti w N P fuel ex = Some (r, ex1)"
    unfolding r_def ex1_def by (rule executeMulti_ended[OF refl run_ends[OF assms(1,2) refl]])
  have g2: "executeMulti w' N P fuel ex = Some (r', ex1')"
    unfolding r'_def ex1'_def by (rule executeMulti_ended[OF refl run_ends[OF assms(1,2) refl]])
  have g3: "waves ex1' = waves ex1" by (simp add: sel same)
  have g4: "length (mr_results r') = length (mr_results r)" by (simp add: len)
  have g5: "length (mr_results r) = sum_list (waves ex1)"
    unfolding len(1) sel(3) by (rule c2)
  have g6: "\<forall>i < length (mr_results r).
          mr_results r ! i =
            (case session_run w i of
               Returns res \<Rightarrow> SessionResult res
             | Throws e \<Rightarrow>
                 FailureEntry (if err_message e = [] then err_message typeError_toLowerCase
                               else err_message e) i)
        \<and> (case promises ex1 i of
             Some (Inr res) \<Rightarrow> mr_results r ! i = SessionResult res
           | Some (Inl reason) \<Rightarrow> mr_results r ! i = FailureEntry (err_message reason) i
           | None \<Rightarrow> False)
        \<and> (session_run w' i = session_run w i \<longrightarrow> mr_results r' ! i = mr_results r ! i)"
  proof (intro allI impI)
    fix i assume "i < length (mr_results r)"
    then have i: "i < ex_completed ?L" by (simp add: len)
    then have a: "mr_results r ! i = expected_entry w i" by (simp add: sel rs)
    from i have b: "mr_results r' ! i = expected_entry w' i" by (simp add: sel rs' same_c)
    from i pr have c: "promises ex1 i = Some (settled_value w i)" by (simp add: sel)
    show "mr_results r ! i =
            (case session_run w i of
               Returns res \<Rightarrow> SessionResult res
             | Throws e \<Rightarrow>
                 FailureEntry (if err_message e = [] then err_message typeError_toLowerCase
                               else err_message e) i)
        \<and> (case promises ex1 i of
             Some (Inr res) \<Rightarrow> mr_results r ! i = SessionResult res
           | Some (Inl reason) \<Rightarrow> mr_results r ! i = FailureEntry (err_message reason) i
           | None \<Rightarrow> False)
        \<and> (session_run w' i = session_run w i \<longrightarrow> mr_results r' ! i = mr_results r ! i)"
      unfolding a b c
      by (simp add: expected_entry_def settled_value_def typeError_toLowerCase_def
            split: run_outcome.splits)
  qed
  have g7: "(\<forall>k. \<not> stopDuring w k) \<longrightarrow> length (mr_results r) = N"
    using full_run_state(1)[OF assms(1) _ assms(2) refl, of w ex] by (simp add: len)
  from g1 g2 g3 g4 g5 g6 g7 show ?thesis by blast
qed

theorem failure_isolation_witness:
  "\<exists>r ex1 r' ex1'.
      executeMulti one_throws 10 3 10 new_executor = Some (r, ex1)
    \<and> executeMulti all_pass 10 3 10 new_executor = Some (r', ex1')
    \<and> waves ex1' = waves ex1
    \<and> length (mr_results r) = 10
    \<and> mr_results r ! 1 = FailureEntry ''Browser setup failed: launch timeout'' 1
    \<and> mr_results r ! 0 = mr_results r' ! 0
    \<and> mr_results r ! 2 = mr_results r' ! 2
    \<and> mr_results r ! 9 = mr_results r' ! 9"
proof -
  have h1: "0 < (3::nat)" and h2: "(10::nat) \<le> 10" by simp_all
  have h3: "stopDuring all_pass = stopDuring one_throws" by (simp add: one_throws_def)
  have h4: "\<forall>k. \<not> stopDuring one_throws k" by (simp add: one_throws_def all_pass_def)
  from failure_isolation[OF h1 h2 h3, of new_executor]
  obtain r ex1 r' ex1' where
        a: "executeMulti one_throws 10 3 10 new_executor = Some (r, ex1)"
    and b: "executeMulti all_pass 10 3 10 new_executor = Some (r', ex1')"
    and c: "waves ex1' = waves ex1"
    and d: "\<forall>i < length (mr_results r).
          mr_results r ! i =
            (case session_run one_throws i of
               Returns res \<Rightarrow> SessionResult res
             | Throws e \<Rightarrow>
                 FailureEntry (if err_message e = [] then err_message typeError_toLowerCase
                               else err_message e) i)
        \<and> (session_run all_pass i = session_run one_throws i \<longrightarrow>
             mr_results r' ! i = mr_results r ! i)"
    and e: "(\<forall>k. \<not> stopDuring one_throws k) \<longrightarrow> length (mr_results r) = 10"
    by blast
  from e h4 have len: "length (mr_results r) = 10" by simp
  from d[rule_format, of 1] len
  have r1: "mr_results r ! 1 = FailureEntry ''Browser setup failed: launch timeout'' 1"
    by (simp add: one_throws_def)
  from d[rule_format, of 0] len have r0: "mr_results r ! 0 = mr_results r' ! 0"
    by (simp add: one_throws_def all_pass_def)
  from d[rule_format, of 2] len have r2: "mr_results r ! 2 = mr_results r' ! 2"
    by (simp add: one_throws_def all_pass_def)
  from d[rule_format, of 9] len have r9: "mr_results r ! 9 = mr_results r' ! 9"
    by (simp add: one_throws_def all_pass_def)
  from a b c len r1 r0 r2 r9 show ?thesis by blast
qed

text \<open>
  C7. Let \<^verbatim>\<open>stop()\<close> be called for the first time while wave \<open>k\<close> is in flight or cooling
  down (a wave the run reaches: \<open>k * P < N\<close>). Then the run returns; wave \<open>k\<close> is the last
  wave; it has its full \<open>min(P, remaining)\<close> sessions, each of which has settled (nothing is
  in flight at the end, and the trace is that of whole waves); and the summary's total is
  the number of sessions started, \<open>min((k + 1) * P, N)\<close>.
\<close>

theorem stop_is_cooperative:
  assumes "stopDuring w k" "\<forall>j < k. \<not> stopDuring w j" "k * P < N" "k < fuel"
  shows "\<exists>r ex'. executeMulti w N P fuel ex = Some (r, ex')
      \<and> length (waves ex') = Suc k
      \<and> waves ex' ! k = min P (N - sum_list (take k (waves ex')))
      \<and> trace ex' = wave_trace w 0 (waves ex')
      \<and> in_flight {} (trace ex') = {}
      \<and> length (started (trace ex')) = min (Suc k * P) N
      \<and> sum_total (mr_summary r) = length (started (trace ex'))"
proof -
  let ?L = "waves_loop w N (min P N) fuel (executeMulti_start ex)"
  define r where "r = \<lparr> mr_success = list_all entry_success (results ?L),
                         mr_results = results ?L, mr_summary = createSummary (results ?L) \<rparr>"
  define ex' where "ex' = ?L\<lparr> isRunning := False, ex_sessions := {} \<rparr>"
  have sel: "mr_summary r = createSummary (results ?L)" "waves ex' = waves ?L" "trace ex' = trace ?L"
    by (simp_all add: r_def ex'_def)
  have inv: "wave_inv w N (min P N) ?L" by (rule loop_inv)
  from inv[unfolded wave_inv_def]
  have ws: "\<forall>j < length (waves ?L).
               waves ?L ! j = min (min P N) (N - sum_list (take j (waves ?L)))
             \<and> j * min P N < N \<and> sum_list (take j (waves ?L)) < N"
    and rs: "results ?L = map (expected_entry w) [0..<ex_completed ?L]"
    and st: "started (trace ?L) = [0..<ex_completed ?L]"
    and tr: "trace ?L = wave_trace w 0 (waves ?L)"
    and fl: "in_flight {} (trace ?L) = {}"
    by blast+
  note s = stopped_run_state[OF assms refl, of ex]
  have g1: "executeMulti w N P fuel ex = Some (r, ex')"
    unfolding r_def ex'_def by (rule executeMulti_ended[OF refl s(1)])
  have g2: "length (waves ex') = Suc k" by (simp add: sel s(2))
  from ws s(2) have g3: "waves ex' ! k = min P (N - sum_list (take k (waves ex')))"
    by (simp add: min_batch sel)
  have g4: "trace ex' = wave_trace w 0 (waves ex')" by (simp only: sel tr)
  have g5: "in_flight {} (trace ex') = {}" by (simp only: sel fl)
  have g6: "length (started (trace ex')) = min (Suc k * P) N"
    by (simp only: sel(3) st s(3) length_upt diff_zero)
  have g7: "sum_total (mr_summary r) = length (started (trace ex'))"
    by (simp only: sel createSummary_total rs st length_map)
  from g1 g2 g3 g4 g5 g6 g7 show ?thesis by blast
qed

theorem stop_is_cooperative_witness:
  "\<exists>r ex'. executeMulti stopped_in_second_wave 10 3 10 new_executor = Some (r, ex')
      \<and> length (waves ex') = 2
      \<and> in_flight {} (trace ex') = {}
      \<and> length (started (trace ex')) = 6
      \<and> sum_total (mr_summary r) = 6"
proof -
  have h1: "stopDuring stopped_in_second_wave 1"
    and h2: "\<forall>j < 1. \<not> stopDuring stopped_in_second_wave j"
    and h3: "1 * 3 < (10::nat)" and h4: "1 < (10::nat)"
    by (simp_all add: stopped_in_second_wave_def)
  from stop_is_cooperative[OF h1 h2 h3 h4, of new_executor]
  show ?thesis by auto
qed

end
